theory Spec2Isabelle
  imports Main "HOL-Library.AList"
begin

section \<open>Values, errors and dictionaries\<close>

text \<open>
  Nodes are Python strings and an edge is a pair of nodes. The numbers of the flow
  solvers are Python integers (unbounded) and the floats made from \<^verbatim>\<open>float("inf")\<close>:
  an integer combined with an infinity gives an infinity or a NaN, never a finite float,
  so four shapes of value are enough.
\<close>

type_synonym node = string
type_synonym edge = "node \<times> node"

datatype num = Fin int | PInf | NInf | NaN

datatype error = KeyError | OverflowError | TypeError | IndexError | ValueError

text \<open>
  Mixed arithmetic converts the integer to a float first, and Python raises
  OverflowError when the integer rounds (to nearest, ties to even) beyond the largest
  double: from \<open>2 ^ 1024 - 2 ^ 970\<close> on. Comparisons of an integer with a float are exact
  and never raise.
\<close>

definition float_overflow :: "int \<Rightarrow> bool" where
  "float_overflow i = (2 ^ 1024 - 2 ^ 970 \<le> \<bar>i\<bar>)"

fun py_neg :: "num \<Rightarrow> num" where
  "py_neg (Fin a) = Fin (- a)"
| "py_neg PInf = NInf"
| "py_neg NInf = PInf"
| "py_neg NaN = NaN"

fun py_add :: "num \<Rightarrow> num \<Rightarrow> error + num" where
  "py_add (Fin a) (Fin b) = Inr (Fin (a + b))"
| "py_add (Fin a) y = (if float_overflow a then Inl OverflowError else Inr y)"
| "py_add x (Fin b) = (if float_overflow b then Inl OverflowError else Inr x)"
| "py_add PInf PInf = Inr PInf"
| "py_add NInf NInf = Inr NInf"
| "py_add x y = Inr NaN"

fun py_sub :: "num \<Rightarrow> num \<Rightarrow> error + num" where
  "py_sub (Fin a) (Fin b) = Inr (Fin (a - b))"
| "py_sub (Fin a) y = (if float_overflow a then Inl OverflowError else Inr (py_neg y))"
| "py_sub x (Fin b) = (if float_overflow b then Inl OverflowError else Inr x)"
| "py_sub PInf NInf = Inr PInf"
| "py_sub NInf PInf = Inr NInf"
| "py_sub x y = Inr NaN"

fun py_mul :: "num \<Rightarrow> num \<Rightarrow> error + num" where
  "py_mul (Fin a) (Fin b) = Inr (Fin (a * b))"
| "py_mul (Fin a) y =
     (if float_overflow a then Inl OverflowError
      else Inr (if a = 0 then NaN else if 0 < a then y else py_neg y))"
| "py_mul x (Fin b) =
     (if float_overflow b then Inl OverflowError
      else Inr (if b = 0 then NaN else if 0 < b then x else py_neg x))"
| "py_mul NaN y = Inr NaN"
| "py_mul x NaN = Inr NaN"
| "py_mul PInf y = Inr y"
| "py_mul NInf y = Inr (py_neg y)"

fun py_lt :: "num \<Rightarrow> num \<Rightarrow> bool" where
  "py_lt (Fin a) (Fin b) = (a < b)"
| "py_lt NaN y = False"
| "py_lt x NaN = False"
| "py_lt x NInf = False"
| "py_lt PInf y = False"
| "py_lt NInf y = True"
| "py_lt x PInf = True"

definition py_gt :: "num \<Rightarrow> num \<Rightarrow> bool" where
  "py_gt x y = py_lt y x"

fun py_eq :: "num \<Rightarrow> num \<Rightarrow> bool" where
  "py_eq NaN y = False"
| "py_eq x NaN = False"
| "py_eq x y = (x = y)"

definition py_le :: "num \<Rightarrow> num \<Rightarrow> bool" where
  "py_le x y = (py_lt x y \<or> py_eq x y)"

text \<open>
  A Python dict keeps its keys in insertion order, and assigning to a key that is
  already there keeps its place: an association list with keys kept distinct by
  \<open>AList.update\<close>. Reading a missing key raises KeyError.
\<close>

type_synonym ('k, 'v) dict = "('k \<times> 'v) list"

definition dict_set :: "('k, 'v) dict \<Rightarrow> 'k \<Rightarrow> 'v \<Rightarrow> ('k, 'v) dict" where
  "dict_set d k v = AList.update k v d"

definition dict_get :: "('k, 'v) dict \<Rightarrow> 'k \<Rightarrow> error + 'v" where
  "dict_get d k = (case map_of d k of None \<Rightarrow> Inl KeyError | Some v \<Rightarrow> Inr v)"

definition dict_keys :: "('k, 'v) dict \<Rightarrow> 'k list" where
  "dict_keys d = map fst d"

section \<open>util.py\<close>

text \<open>\<^verbatim>\<open>get_path_edges\<close>: the consecutive pairs of a node list.\<close>

fun get_path_edges :: "node list \<Rightarrow> edge list" where
  "get_path_edges (u # v # rest) = (u, v) # get_path_edges (v # rest)"
| "get_path_edges path_nodes = []"

text \<open>
  \<^verbatim>\<open>calculate_path_capacity\<close>: the running minimum, started at infinity; an edge
  replaces it only when strictly smaller.
\<close>

fun path_capacity_loop :: "(edge, num) dict \<Rightarrow> edge list \<Rightarrow> num \<Rightarrow> error + num" where
  "path_capacity_loop capacities [] path_capacity = Inr path_capacity"
| "path_capacity_loop capacities (e # es) path_capacity =
     (case dict_get capacities e of
        Inl err \<Rightarrow> Inl err
      | Inr c \<Rightarrow> path_capacity_loop capacities es (if py_lt c path_capacity then c else path_capacity))"

definition calculate_path_capacity :: "(edge, num) dict \<Rightarrow> edge list \<Rightarrow> error + num" where
  "calculate_path_capacity capacities path_edges = path_capacity_loop capacities path_edges PInf"

text \<open>
  \<^verbatim>\<open>calculate_flow_value\<close>: add the flow of the keys leaving the node, then subtract
  the flow of the keys entering it, in key order.
\<close>

fun add_all :: "num \<Rightarrow> num list \<Rightarrow> error + num" where
  "add_all acc [] = Inr acc"
| "add_all acc (x # xs) =
     (case py_add acc x of Inl err \<Rightarrow> Inl err | Inr acc' \<Rightarrow> add_all acc' xs)"

fun sub_all :: "num \<Rightarrow> num list \<Rightarrow> error + num" where
  "sub_all acc [] = Inr acc"
| "sub_all acc (x # xs) =
     (case py_sub acc x of Inl err \<Rightarrow> Inl err | Inr acc' \<Rightarrow> sub_all acc' xs)"

definition calculate_flow_value :: "(edge, num) dict \<Rightarrow> node \<Rightarrow> error + num" where
  "calculate_flow_value flow n =
     (case add_all (Fin 0) (map snd (filter (\<lambda>((u, v), x). u = n) flow)) of
        Inl err \<Rightarrow> Inl err
      | Inr flow_value \<Rightarrow> sub_all flow_value (map snd (filter (\<lambda>((u, v), x). v = n) flow)))"

section \<open>Residual graphs\<close>

text \<open>
  \<^verbatim>\<open>construct_residual_graph\<close> of maximum\_flow.py: for each edge in order, the
  forward entry is written, then the backward entry.
\<close>

fun residual_loop ::
  "edge list \<Rightarrow> (edge, num) dict \<Rightarrow> (edge, num) dict \<Rightarrow> (edge, num) dict
    \<Rightarrow> error + (edge, num) dict" where
  "residual_loop [] capacities flow residual_capacities = Inr residual_capacities"
| "residual_loop ((u, v) # es) capacities flow residual_capacities =
     (case dict_get capacities (u, v) of
        Inl err \<Rightarrow> Inl err
      | Inr c \<Rightarrow>
     (case dict_get flow (u, v) of
        Inl err \<Rightarrow> Inl err
      | Inr f \<Rightarrow>
     (case py_sub c f of
        Inl err \<Rightarrow> Inl err
      | Inr r \<Rightarrow>
          residual_loop es capacities flow
            (dict_set (dict_set residual_capacities (u, v) r) (v, u) f))))"

definition construct_residual_graph ::
  "edge list \<Rightarrow> (edge, num) dict \<Rightarrow> (edge, num) dict
    \<Rightarrow> error + (edge list \<times> (edge, num) dict)" where
  "construct_residual_graph edges capacities flow =
     (case residual_loop edges capacities flow [] of
        Inl err \<Rightarrow> Inl err
      | Inr residual_capacities \<Rightarrow> Inr (dict_keys residual_capacities, residual_capacities))"

text \<open>
  \<^verbatim>\<open>construct_residual_graph_min_flow\<close> of minimum\_flow.py: forward is upper bound
  minus flow, backward is flow minus lower bound.
\<close>

fun residual_loop_min_flow ::
  "edge list \<Rightarrow> (edge, num) dict \<Rightarrow> (edge, num) dict \<Rightarrow> (edge, num) dict \<Rightarrow> (edge, num) dict
    \<Rightarrow> error + (edge, num) dict" where
  "residual_loop_min_flow [] lower_bounds upper_bounds flow residual_capacities =
     Inr residual_capacities"
| "residual_loop_min_flow ((u, v) # es) lower_bounds upper_bounds flow residual_capacities =
     (case dict_get upper_bounds (u, v) of
        Inl err \<Rightarrow> Inl err
      | Inr ub \<Rightarrow>
     (case dict_get flow (u, v) of
        Inl err \<Rightarrow> Inl err
      | Inr f \<Rightarrow>
     (case py_sub ub f of
        Inl err \<Rightarrow> Inl err
      | Inr r \<Rightarrow>
     (case dict_get lower_bounds (u, v) of
        Inl err \<Rightarrow> Inl err
      | Inr lb \<Rightarrow>
     (case py_sub f lb of
        Inl err \<Rightarrow> Inl err
      | Inr b \<Rightarrow>
          residual_loop_min_flow es lower_bounds upper_bounds flow
            (dict_set (dict_set residual_capacities (u, v) r) (v, u) b))))))"

definition construct_residual_graph_min_flow ::
  "edge list \<Rightarrow> (edge, num) dict \<Rightarrow> (edge, num) dict \<Rightarrow> (edge, num) dict
    \<Rightarrow> error + (edge list \<times> (edge, num) dict)" where
  "construct_residual_graph_min_flow edges lower_bounds upper_bounds flow =
     (case residual_loop_min_flow edges lower_bounds upper_bounds flow [] of
        Inl err \<Rightarrow> Inl err
      | Inr residual_capacities \<Rightarrow> Inr (dict_keys residual_capacities, residual_capacities))"

section \<open>Augmenting path search (maximum\_flow.py)\<close>

text \<open>
  The four searches filter the edge list the same way: the edges leaving the current
  node, of residual capacity greater than zero, whose head is not in a list of nodes
  already seen. Python's \<^verbatim>\<open>and\<close> evaluates left to right, so the capacity is looked up
  (and may raise KeyError) only for edges that leave the current node.
\<close>

fun successors :: "edge list \<Rightarrow> (edge, num) dict \<Rightarrow> node \<Rightarrow> node list \<Rightarrow> error + node list" where
  "successors [] residual_capacities current_node seen = Inr []"
| "successors ((u, v) # es) residual_capacities current_node seen =
     (if u = current_node then
        (case dict_get residual_capacities (u, v) of
           Inl err \<Rightarrow> Inl err
         | Inr c \<Rightarrow>
        (case successors es residual_capacities current_node seen of
           Inl err \<Rightarrow> Inl err
         | Inr vs \<Rightarrow> Inr (if py_gt c (Fin 0) \<and> v \<notin> set seen then v # vs else vs)))
      else successors es residual_capacities current_node seen)"

lemma successors_Cons_Inr:
  "successors ((a, b) # es) rc cur seen = Inr ns \<Longrightarrow>
     (a \<noteq> cur \<and> successors es rc cur seen = Inr ns) \<or>
     (a = cur \<and> (\<exists>c vs. dict_get rc (a, b) = Inr c \<and> successors es rc cur seen = Inr vs \<and>
        ns = (if py_gt c (Fin 0) \<and> b \<notin> set seen then b # vs else vs)))"
  by (cases "a = cur") (auto split: sum.splits)

lemma successors_mem:
  "successors es rc cur seen = Inr ns \<Longrightarrow> v \<in> set ns \<Longrightarrow> (cur, v) \<in> set es \<and> v \<notin> set seen"
proof (induction es arbitrary: ns)
  case Nil
  then show ?case by simp
next
  case (Cons e es)
  obtain a b where e: "e = (a, b)" by (cases e)
  from Cons.prems(1) e have "successors ((a, b) # es) rc cur seen = Inr ns" by simp
  from successors_Cons_Inr[OF this] show ?case
  proof (elim disjE conjE exE)
    assume "a \<noteq> cur" "successors es rc cur seen = Inr ns"
    then show ?thesis using Cons.IH Cons.prems(2) by simp
  next
    fix c vs
    assume h: "a = cur" "successors es rc cur seen = Inr vs"
      "ns = (if py_gt c (Fin 0) \<and> b \<notin> set seen then b # vs else vs)"
    show ?thesis
    proof (cases "v \<in> set vs")
      case True
      then show ?thesis using Cons.IH[OF h(2)] by simp
    next
      case False
      then have "v = b \<and> b \<notin> set seen" using h(3) Cons.prems(2) by (simp split: if_splits)
      then show ?thesis using e h(1) by simp
    qed
  qed
qed

lemma successors_subset:
  "successors es rc cur seen = Inr ns \<Longrightarrow> set ns \<subseteq> snd ` set es - set seen"
proof
  fix v assume a: "successors es rc cur seen = Inr ns" "v \<in> set ns"
  from successors_mem[OF a] have "(cur, v) \<in> set es" "v \<notin> set seen" by simp_all
  then show "v \<in> snd ` set es - set seen" by force
qed

lemma successors_length:
  "successors es rc cur seen = Inr ns \<Longrightarrow> length ns \<le> length es"
proof (induction es arbitrary: ns)
  case Nil
  then show ?case by simp
next
  case (Cons e es)
  obtain a b where e: "e = (a, b)" by (cases e)
  from Cons.prems(1) e have "successors ((a, b) # es) rc cur seen = Inr ns" by simp
  from successors_Cons_Inr[OF this] show ?case
  proof (elim disjE conjE exE)
    assume "a \<noteq> cur" "successors es rc cur seen = Inr ns"
    then show ?thesis using Cons.IH[of ns] by simp
  next
    fix c vs
    assume h: "a = cur" "successors es rc cur seen = Inr vs"
      "ns = (if py_gt c (Fin 0) \<and> b \<notin> set seen then b # vs else vs)"
    from Cons.IH[OF h(2)] h(3) show ?thesis by (simp split: if_splits)
  qed
qed

text \<open>
  \<^verbatim>\<open>find_augmenting_path_bfs\<close>: a queue of paths and the list of discovered nodes.
\<close>

function bfs_loop ::
  "edge list \<Rightarrow> (edge, num) dict \<Rightarrow> node \<Rightarrow> node list \<Rightarrow> node list list
    \<Rightarrow> error + node list option" where
  "bfs_loop edges rc sink closed_list_nodes [] = Inr None"
| "bfs_loop edges rc sink closed_list_nodes (current_path # rest) =
     (if current_path = [] then Inl IndexError
      else if last current_path = sink then Inr (Some current_path)
      else (case successors edges rc (last current_path) closed_list_nodes of
              Inl err \<Rightarrow> Inl err
            | Inr new_nodes \<Rightarrow>
                bfs_loop edges rc sink (closed_list_nodes @ new_nodes)
                  (rest @ map (\<lambda>new_node. current_path @ [new_node]) new_nodes)))"
  by pat_completeness auto

lemma bfs_measure:
  assumes "successors edges rc cur closed = Inr new_nodes" "new_nodes \<noteq> []"
  shows "card (snd ` set edges - set (closed @ new_nodes)) < card (snd ` set edges - set closed)"
proof -
  have sub: "set new_nodes \<subseteq> snd ` set edges - set closed"
    using assms(1) by (rule successors_subset)
  obtain v where v: "v \<in> set new_nodes" using assms(2) by (cases new_nodes) auto
  then have "v \<in> snd ` set edges - set closed" using sub by blast
  moreover have "v \<notin> snd ` set edges - set (closed @ new_nodes)" using v by simp
  moreover have "snd ` set edges - set (closed @ new_nodes) \<subseteq> snd ` set edges - set closed"
    by auto
  ultimately have "snd ` set edges - set (closed @ new_nodes) \<subset> snd ` set edges - set closed"
    by blast
  then show ?thesis by (intro psubset_card_mono) simp_all
qed

termination bfs_loop
proof (relation "measures [\<lambda>(edges, rc, sink, closed, open_paths). card (snd ` set edges - set closed),
                           \<lambda>(edges, rc, sink, closed, open_paths). length open_paths]", goal_cases)
  case 1
  show ?case by simp
next
  case (2 edges rc sink closed current_path rest new_nodes)
  show ?case
  proof (cases "new_nodes = []")
    case True
    then show ?thesis by simp
  next
    case False
    from bfs_measure[OF 2(3) False] show ?thesis by simp
  qed
qed

text \<open>
  \<^verbatim>\<open>find_augmenting_path_dfs\<close>: the current path as a stack and the list of dead ends.
\<close>

function dfs_loop ::
  "edge list \<Rightarrow> (edge, num) dict \<Rightarrow> node \<Rightarrow> node list \<Rightarrow> node list
    \<Rightarrow> error + node list option" where
  "dfs_loop edges rc sink closed_list_nodes open_list_nodes =
     (if open_list_nodes = [] then Inr None
      else if last open_list_nodes = sink then Inr (Some open_list_nodes)
      else (case successors edges rc (last open_list_nodes) (open_list_nodes @ closed_list_nodes) of
              Inl err \<Rightarrow> Inl err
            | Inr new_nodes \<Rightarrow>
                (case new_nodes of
                   [] \<Rightarrow> dfs_loop edges rc sink (closed_list_nodes @ [last open_list_nodes])
                           (butlast open_list_nodes)
                 | v # vs \<Rightarrow> dfs_loop edges rc sink closed_list_nodes (open_list_nodes @ [v]))))"
  by pat_completeness auto

lemma dfs_measure_pop:
  assumes "open_nodes \<noteq> []"
  shows "snd ` set edges - (set (closed @ [last open_nodes]) \<union> set (butlast open_nodes))
      = snd ` set edges - (set closed \<union> set open_nodes)"
proof -
  have "butlast open_nodes @ [last open_nodes] = open_nodes" using assms by simp
  then have "set (butlast open_nodes) \<union> {last open_nodes} = set open_nodes"
    by (metis set_append list.set(1) list.set(2))
  then show ?thesis by auto
qed

lemma dfs_measure_push:
  assumes "successors edges rc cur (open_nodes @ closed) = Inr (v # vs)"
  shows "card (snd ` set edges - (set closed \<union> set (open_nodes @ [v])))
      < card (snd ` set edges - (set closed \<union> set open_nodes))"
proof -
  have "set (v # vs) \<subseteq> snd ` set edges - set (open_nodes @ closed)"
    using assms by (rule successors_subset)
  then have v: "v \<in> snd ` set edges - (set closed \<union> set open_nodes)" by auto
  have "snd ` set edges - (set closed \<union> set (open_nodes @ [v]))
      \<subset> snd ` set edges - (set closed \<union> set open_nodes)"
    using v by auto
  then show ?thesis by (intro psubset_card_mono) simp_all
qed

termination dfs_loop
proof (relation "measure (\<lambda>(edges, rc, sink, closed, open_nodes).
          2 * card (snd ` set edges - (set closed \<union> set open_nodes)) + length open_nodes)", goal_cases)
  case 1
  show ?case by simp
next
  case (2 edges rc sink closed open_nodes new_nodes)
  have "length (butlast open_nodes) < length open_nodes"
    using 2(1) by simp
  then show ?case using dfs_measure_pop[OF 2(1), of edges closed] by simp
next
  case (3 edges rc sink closed open_nodes new_nodes v vs)
  from 3(3,4) have "successors edges rc (last open_nodes) (open_nodes @ closed) = Inr (v # vs)" by simp
  from dfs_measure_push[OF this] show ?case by simp
qed


text \<open>
  \<^verbatim>\<open>find_augmenting_path_max\<close> and \<^verbatim>\<open>find_augmenting_path_min\<close> share their first
  loop: the queue of active paths is extended by every edge whose head is not yet on the
  path, and every path that ends in the sink is collected.
\<close>

function all_paths_loop ::
  "edge list \<Rightarrow> (edge, num) dict \<Rightarrow> node \<Rightarrow> node list list \<Rightarrow> node list list
    \<Rightarrow> error + node list list" where
  "all_paths_loop edges rc sink [] all_paths = Inr all_paths"
| "all_paths_loop edges rc sink (current_path # rest) all_paths =
     (if current_path = [] then Inl IndexError
      else if last current_path = sink then
        all_paths_loop edges rc sink rest (all_paths @ [current_path])
      else (case successors edges rc (last current_path) current_path of
              Inl err \<Rightarrow> Inl err
            | Inr new_nodes \<Rightarrow>
                all_paths_loop edges rc sink
                  (rest @ map (\<lambda>new_node. current_path @ [new_node]) new_nodes) all_paths))"
  by pat_completeness auto

definition path_weight :: "edge list \<Rightarrow> node list \<Rightarrow> nat" where
  "path_weight edges p = (length edges + 1) ^ card (snd ` set edges - set p)"

lemma path_weight_pos: "0 < path_weight edges p"
  by (simp add: path_weight_def)

lemma path_weight_child:
  assumes "v \<in> snd ` set edges - set p"
  shows "path_weight edges (p @ [v]) * (length edges + 1) = path_weight edges p"
proof -
  define S where "S = snd ` set edges - set p"
  have fin: "finite S" unfolding S_def by simp
  have v: "v \<in> S" using assms unfolding S_def .
  have "snd ` set edges - set (p @ [v]) = S - {v}" unfolding S_def by auto
  then have a: "path_weight edges (p @ [v]) = (length edges + 1) ^ card (S - {v})"
    by (simp only: path_weight_def)
  have b: "path_weight edges p = (length edges + 1) ^ card S"
    by (simp only: path_weight_def S_def)
  have "card S = Suc (card (S - {v}))"
    using fin v by (simp only: card.remove)
  then have "(length edges + 1) ^ card S = (length edges + 1) ^ card (S - {v}) * (length edges + 1)"
    by (simp only: power_Suc mult.commute)
  then show ?thesis by (simp only: a b)
qed

lemma sum_list_scaled:
  "(\<And>v. v \<in> set ns \<Longrightarrow> f v * M = (K::nat)) \<Longrightarrow> sum_list (map f ns) * M = length ns * K"
proof (induction ns)
  case Nil
  show ?case by simp
next
  case (Cons a ns)
  have "f a * M = K" by (rule Cons.prems) simp
  moreover have "sum_list (map f ns) * M = length ns * K"
    by (rule Cons.IH) (rule Cons.prems, simp)
  ultimately show ?case by (simp add: add_mult_distrib)
qed

lemma children_weight:
  assumes "successors edges rc cur p = Inr ns"
  shows "sum_list (map (\<lambda>v. path_weight edges (p @ [v])) ns) < path_weight edges p"
proof -
  define M where "M = length edges + 1"
  define W where "W = path_weight edges p"
  define T where "T = sum_list (map (\<lambda>v. path_weight edges (p @ [v])) ns)"
  have sub: "set ns \<subseteq> snd ` set edges - set p" using assms by (rule successors_subset)
  have each: "\<And>v. v \<in> set ns \<Longrightarrow> path_weight edges (p @ [v]) * M = W"
  proof -
    fix v assume "v \<in> set ns"
    then have "v \<in> snd ` set edges - set p" using sub by (rule subsetD[rotated])
    then show "path_weight edges (p @ [v]) * M = W"
      unfolding M_def W_def by (rule path_weight_child)
  qed
  have eq: "T * M = length ns * W"
    unfolding T_def using each by (rule sum_list_scaled)
  have "length ns < M" using successors_length[OF assms] by (simp add: M_def)
  moreover have "0 < W" unfolding W_def by (rule path_weight_pos)
  ultimately have "length ns * W < M * W" by (rule mult_strict_right_mono)
  then have "T * M < M * W" by (simp only: eq)
  also have "M * W = W * M" by (rule mult.commute)
  finally have "T * M < W * M" .
  then have "T < W" by (simp only: mult_less_cancel2)
  then show ?thesis unfolding T_def W_def .
qed

termination all_paths_loop
proof (relation "measure (\<lambda>(edges, rc, sink, open_paths, all_paths).
          sum_list (map (path_weight edges) open_paths))", goal_cases)
  case 1
  show ?case by simp
next
  case (2 edges rc sink current_path rest all_paths)
  have "sum_list (map (path_weight edges) rest) < sum_list (map (path_weight edges) (current_path # rest))"
    using path_weight_pos[of edges current_path] by (simp only: list.map sum_list.Cons)
  then show ?case by (simp only: in_measure prod.case)
next
  case (3 edges rc sink current_path rest all_paths new_nodes)
  have "sum_list (map (path_weight edges) (rest @ map (\<lambda>new_node. current_path @ [new_node]) new_nodes))
      = sum_list (map (path_weight edges) rest)
        + sum_list (map (\<lambda>v. path_weight edges (current_path @ [v])) new_nodes)"
    by (simp only: map_append sum_list_append map_map o_def)
  moreover note children_weight[OF 3(3)]
  ultimately have "sum_list (map (path_weight edges) (rest @ map (\<lambda>new_node. current_path @ [new_node]) new_nodes))
      < sum_list (map (path_weight edges) (current_path # rest))"
    by (simp only: list.map sum_list.Cons)
  then show ?case by (simp only: in_measure prod.case)
qed

definition find_augmenting_path_bfs ::
  "edge list \<Rightarrow> (edge, num) dict \<Rightarrow> node \<Rightarrow> node \<Rightarrow> error + node list option" where
  "find_augmenting_path_bfs edges residual_capacities source sink =
     bfs_loop edges residual_capacities sink [source] [[source]]"

definition find_augmenting_path_dfs ::
  "edge list \<Rightarrow> (edge, num) dict \<Rightarrow> node \<Rightarrow> node \<Rightarrow> error + node list option" where
  "find_augmenting_path_dfs edges residual_capacities source sink =
     dfs_loop edges residual_capacities sink [] [source]"

text \<open>
  The selection loops of \<^verbatim>\<open>find_augmenting_path_max\<close> (best capacity so far starts at
  the integer 0, a path must be strictly better) and \<^verbatim>\<open>find_augmenting_path_min\<close> (best
  capacity so far starts at infinity, a path must be strictly smaller).
\<close>

fun max_select ::
  "(edge, num) dict \<Rightarrow> node list list \<Rightarrow> num \<Rightarrow> node list option \<Rightarrow> error + node list option" where
  "max_select rc [] max_path_capacity max_path = Inr max_path"
| "max_select rc (path # paths) max_path_capacity max_path =
     (case calculate_path_capacity rc (get_path_edges path) of
        Inl err \<Rightarrow> Inl err
      | Inr path_capacity \<Rightarrow>
          (if py_gt path_capacity max_path_capacity
           then max_select rc paths path_capacity (Some path)
           else max_select rc paths max_path_capacity max_path))"

fun min_select ::
  "(edge, num) dict \<Rightarrow> node list list \<Rightarrow> num \<Rightarrow> node list option \<Rightarrow> error + node list option" where
  "min_select rc [] min_path_capacity min_path = Inr min_path"
| "min_select rc (path # paths) min_path_capacity min_path =
     (case calculate_path_capacity rc (get_path_edges path) of
        Inl err \<Rightarrow> Inl err
      | Inr path_capacity \<Rightarrow>
          (if py_lt path_capacity min_path_capacity
           then min_select rc paths path_capacity (Some path)
           else min_select rc paths min_path_capacity min_path))"

definition find_augmenting_path_max ::
  "edge list \<Rightarrow> (edge, num) dict \<Rightarrow> node \<Rightarrow> node \<Rightarrow> error + node list option" where
  "find_augmenting_path_max edges residual_capacities source sink =
     (case all_paths_loop edges residual_capacities sink [[source]] [] of
        Inl err \<Rightarrow> Inl err
      | Inr all_paths \<Rightarrow> max_select residual_capacities all_paths (Fin 0) None)"

definition find_augmenting_path_min ::
  "edge list \<Rightarrow> (edge, num) dict \<Rightarrow> node \<Rightarrow> node \<Rightarrow> error + node list option" where
  "find_augmenting_path_min edges residual_capacities source sink =
     (case all_paths_loop edges residual_capacities sink [[source]] [] of
        Inl err \<Rightarrow> Inl err
      | Inr all_paths \<Rightarrow> min_select residual_capacities all_paths PInf None)"

section \<open>The Ford-Fulkerson engines\<close>

type_synonym search_method =
  "edge list \<Rightarrow> (edge, num) dict \<Rightarrow> node \<Rightarrow> node \<Rightarrow> error + node list option"

text \<open>\<^verbatim>\<open>flow[e] += x\<close> and \<^verbatim>\<open>flow[e] -= x\<close>.\<close>

definition dict_add :: "(edge, num) dict \<Rightarrow> edge \<Rightarrow> num \<Rightarrow> error + (edge, num) dict" where
  "dict_add flow e x =
     (case dict_get flow e of
        Inl err \<Rightarrow> Inl err
      | Inr f \<Rightarrow> (case py_add f x of Inl err \<Rightarrow> Inl err | Inr f' \<Rightarrow> Inr (dict_set flow e f')))"

definition dict_sub :: "(edge, num) dict \<Rightarrow> edge \<Rightarrow> num \<Rightarrow> error + (edge, num) dict" where
  "dict_sub flow e x =
     (case dict_get flow e of
        Inl err \<Rightarrow> Inl err
      | Inr f \<Rightarrow> (case py_sub f x of Inl err \<Rightarrow> Inl err | Inr f' \<Rightarrow> Inr (dict_set flow e f')))"

text \<open>
  The augmentation loop, written out three times in the source (both engines and the
  minimum cost solver): every edge on the path gains the path capacity, every edge whose
  reverse is on the path loses it.
\<close>

fun augment_flow ::
  "edge list \<Rightarrow> (edge, num) dict \<Rightarrow> edge list \<Rightarrow> num \<Rightarrow> error + (edge, num) dict" where
  "augment_flow [] flow augmenting_path_edges augmenting_path_capacity = Inr flow"
| "augment_flow ((u, v) # es) flow augmenting_path_edges augmenting_path_capacity =
     (case (if (u, v) \<in> set augmenting_path_edges
            then dict_add flow (u, v) augmenting_path_capacity else Inr flow) of
        Inl err \<Rightarrow> Inl err
      | Inr flow1 \<Rightarrow>
     (case (if (v, u) \<in> set augmenting_path_edges
            then dict_sub flow1 (u, v) augmenting_path_capacity else Inr flow1) of
        Inl err \<Rightarrow> Inl err
      | Inr flow2 \<Rightarrow> augment_flow es flow2 augmenting_path_edges augmenting_path_capacity))"

text \<open>\<^verbatim>\<open>flow = {}; for edge in edges: flow[edge] = 0\<close>\<close>

fun zero_flow_loop :: "edge list \<Rightarrow> (edge, num) dict \<Rightarrow> (edge, num) dict" where
  "zero_flow_loop [] flow = flow"
| "zero_flow_loop (e # es) flow = zero_flow_loop es (dict_set flow e (Fin 0))"

text \<open>
  \<^verbatim>\<open>if not flow\<close>: the default \<^verbatim>\<open>None\<close> and the empty dict are both replaced by the
  all-zero flow.
\<close>

definition initial_flow :: "edge list \<Rightarrow> (edge, num) dict option \<Rightarrow> (edge, num) dict" where
  "initial_flow edges flow =
     (case flow of
        None \<Rightarrow> zero_flow_loop edges []
      | Some f \<Rightarrow> if f = [] then zero_flow_loop edges [] else f)"

text \<open>
  The \<^verbatim>\<open>while (augmenting_path_nodes)\<close> loop. The two engines differ only in the
  function that builds the residual graph (so says the docstring of
  \<^verbatim>\<open>ford_fulkerson_min_flow\<close>), which is the parameter \<open>build\<close> here. The loop stops
  on \<^verbatim>\<open>None\<close> and on an empty list; it need not stop at all, and then the value is
  \<open>None\<close>. Debug printing is off.
\<close>

partial_function (option) augment_while ::
  "((edge, num) dict \<Rightarrow> error + (edge list \<times> (edge, num) dict)) \<Rightarrow> edge list \<Rightarrow> node \<Rightarrow> node
    \<Rightarrow> search_method \<Rightarrow> (edge, num) dict \<Rightarrow> (edge, num) dict \<Rightarrow> node list option
    \<Rightarrow> (error + (edge, num) dict) option" where
  "augment_while build edges source sink search_method flow residual_capacities augmenting_path_nodes =
     (case augmenting_path_nodes of
        None \<Rightarrow> Some (Inr flow)
      | Some path \<Rightarrow>
          if path = [] then Some (Inr flow)
          else
            (case calculate_path_capacity residual_capacities (get_path_edges path) of
               Inl err \<Rightarrow> Some (Inl err)
             | Inr augmenting_path_capacity \<Rightarrow>
            (case augment_flow edges flow (get_path_edges path) augmenting_path_capacity of
               Inl err \<Rightarrow> Some (Inl err)
             | Inr flow' \<Rightarrow>
            (case build flow' of
               Inl err \<Rightarrow> Some (Inl err)
             | Inr (residual_edges, residual_capacities') \<Rightarrow>
            (case search_method residual_edges residual_capacities' source sink of
               Inl err \<Rightarrow> Some (Inl err)
             | Inr augmenting_path_nodes' \<Rightarrow>
                 augment_while build edges source sink search_method flow'
                   residual_capacities' augmenting_path_nodes')))))"

declare augment_while.simps [code]

definition engine ::
  "((edge, num) dict \<Rightarrow> error + (edge list \<times> (edge, num) dict)) \<Rightarrow> edge list \<Rightarrow> node \<Rightarrow> node
    \<Rightarrow> search_method \<Rightarrow> (edge, num) dict option \<Rightarrow> (error + ((edge, num) dict \<times> num)) option" where
  "engine build edges source sink search_method flow0 =
     (let flow = initial_flow edges flow0 in
      case build flow of
        Inl err \<Rightarrow> Some (Inl err)
      | Inr (residual_edges, residual_capacities) \<Rightarrow>
     (case search_method residual_edges residual_capacities source sink of
        Inl err \<Rightarrow> Some (Inl err)
      | Inr augmenting_path_nodes \<Rightarrow>
     (case augment_while build edges source sink search_method flow residual_capacities
             augmenting_path_nodes of
        None \<Rightarrow> None
      | Some (Inl err) \<Rightarrow> Some (Inl err)
      | Some (Inr flow') \<Rightarrow>
     (case calculate_flow_value flow' source of
        Inl err \<Rightarrow> Some (Inl err)
      | Inr flow_value \<Rightarrow> Some (Inr (flow', flow_value))))))"

definition ford_fulkerson ::
  "edge list \<Rightarrow> (edge, num) dict \<Rightarrow> node \<Rightarrow> node \<Rightarrow> search_method \<Rightarrow> (edge, num) dict option
    \<Rightarrow> (error + ((edge, num) dict \<times> num)) option" where
  "ford_fulkerson edges capacities source sink search_method flow =
     engine (construct_residual_graph edges capacities) edges source sink search_method flow"

definition ford_fulkerson_min_flow ::
  "edge list \<Rightarrow> (edge, num) dict \<Rightarrow> (edge, num) dict \<Rightarrow> node \<Rightarrow> node \<Rightarrow> search_method
    \<Rightarrow> (edge, num) dict option \<Rightarrow> (error + ((edge, num) dict \<times> num)) option" where
  "ford_fulkerson_min_flow edges lower_bounds upper_bounds source sink search_method flow =
     engine (construct_residual_graph_min_flow edges lower_bounds upper_bounds) edges source sink
       search_method flow"


section \<open>feasible\_flow.py\<close>

text \<open>
  The supply is a dict from node to number. The first loop of \<^verbatim>\<open>feasible_flow\<close> appends an
  edge from \<^verbatim>\<open>s_prime\<close> to every node of positive supply and an edge to \<^verbatim>\<open>t_prime\<close> from
  every node of negative supply, with the magnitude as capacity.
\<close>

fun prime_loop ::
  "node list \<Rightarrow> (node, num) dict \<Rightarrow> edge list \<Rightarrow> (edge, num) dict
    \<Rightarrow> error + (edge list \<times> (edge, num) dict)" where
  "prime_loop [] supply edges_prime capacities_prime = Inr (edges_prime, capacities_prime)"
| "prime_loop (n # ns) supply edges_prime capacities_prime =
     (case dict_get supply n of
        Inl err \<Rightarrow> Inl err
      | Inr s \<Rightarrow>
          if py_gt s (Fin 0) then
            prime_loop ns supply (edges_prime @ [(''s_prime'', n)])
              (dict_set capacities_prime (''s_prime'', n) s)
          else if py_lt s (Fin 0) then
            prime_loop ns supply (edges_prime @ [(n, ''t_prime'')])
              (dict_set capacities_prime (n, ''t_prime'') (py_neg s))
          else prime_loop ns supply edges_prime capacities_prime)"

text \<open>\<^verbatim>\<open>flow = {}; for edge in edges: flow[edge] = flow_prime[edge]\<close>\<close>

fun copy_flow_loop ::
  "edge list \<Rightarrow> (edge, num) dict \<Rightarrow> (edge, num) dict \<Rightarrow> error + (edge, num) dict" where
  "copy_flow_loop [] flow_prime flow = Inr flow"
| "copy_flow_loop (e # es) flow_prime flow =
     (case dict_get flow_prime e of
        Inl err \<Rightarrow> Inl err
      | Inr x \<Rightarrow> copy_flow_loop es flow_prime (dict_set flow e x))"

text \<open>A list comprehension of lookups \<^verbatim>\<open>[d[e] for e in es]\<close>, and the builtin \<^verbatim>\<open>sum\<close>.\<close>

fun lookup_all :: "('k, 'v) dict \<Rightarrow> 'k list \<Rightarrow> error + 'v list" where
  "lookup_all d [] = Inr []"
| "lookup_all d (e # es) =
     (case dict_get d e of
        Inl err \<Rightarrow> Inl err
      | Inr x \<Rightarrow> (case lookup_all d es of Inl err \<Rightarrow> Inl err | Inr xs \<Rightarrow> Inr (x # xs)))"

definition py_sum :: "num list \<Rightarrow> error + num" where
  "py_sum xs = add_all (Fin 0) xs"

text \<open>
  The net outgoing flow of a node, as the feasibility checks compute it: the sum over the
  edges (of the edge list) that leave the node minus the sum over those that enter it.
\<close>

definition net_outgoing_flow :: "(edge, num) dict \<Rightarrow> edge list \<Rightarrow> node \<Rightarrow> error + num" where
  "net_outgoing_flow flow edges n =
     (case lookup_all flow (filter (\<lambda>(v, w). v = n) edges) of
        Inl err \<Rightarrow> Inl err
      | Inr outs \<Rightarrow>
     (case py_sum outs of
        Inl err \<Rightarrow> Inl err
      | Inr sum_out \<Rightarrow>
     (case lookup_all flow (filter (\<lambda>(u, v). v = n) edges) of
        Inl err \<Rightarrow> Inl err
      | Inr ins \<Rightarrow>
     (case py_sum ins of
        Inl err \<Rightarrow> Inl err
      | Inr sum_in \<Rightarrow> py_sub sum_out sum_in))))"

text \<open>The check loop of \<^verbatim>\<open>feasible_flow\<close> returns at the first node that fails.\<close>

fun check_supply ::
  "node list \<Rightarrow> (node, num) dict \<Rightarrow> (edge, num) dict \<Rightarrow> edge list \<Rightarrow> error + bool" where
  "check_supply [] supply flow edges = Inr True"
| "check_supply (n # ns) supply flow edges =
     (case net_outgoing_flow flow edges n of
        Inl err \<Rightarrow> Inl err
      | Inr net \<Rightarrow>
     (case dict_get supply n of
        Inl err \<Rightarrow> Inl err
      | Inr s \<Rightarrow> if \<not> py_eq net s then Inr False else check_supply ns supply flow edges))"

definition feasible_flow ::
  "node list \<Rightarrow> edge list \<Rightarrow> (edge, num) dict \<Rightarrow> (node, num) dict \<Rightarrow> search_method
    \<Rightarrow> (edge, num) dict option \<Rightarrow> (error + (bool \<times> (edge, num) dict \<times> num)) option" where
  "feasible_flow nodes edges capacities supply search_method flow0 =
     (case prime_loop nodes supply edges capacities of
        Inl err \<Rightarrow> Some (Inl err)
      | Inr (edges_prime, capacities_prime) \<Rightarrow>
     (case ford_fulkerson edges_prime capacities_prime ''s_prime'' ''t_prime'' search_method flow0 of
        None \<Rightarrow> None
      | Some (Inl err) \<Rightarrow> Some (Inl err)
      | Some (Inr (flow_prime, flow_value)) \<Rightarrow>
     (case copy_flow_loop edges flow_prime [] of
        Inl err \<Rightarrow> Some (Inl err)
      | Inr flow \<Rightarrow>
     (case check_supply nodes supply flow edges of
        Inl err \<Rightarrow> Some (Inl err)
      | Inr feasible \<Rightarrow> Some (Inr (feasible, flow, flow_value))))))"

section \<open>minimum\_flow.py\<close>

text \<open>
  The capacities of the auxiliary graph of \<^verbatim>\<open>minimum_flow\<close>: for every node the sum of
  the lower bounds of its incoming edges (on the edge from \<^verbatim>\<open>s_prime\<close>) and of its outgoing
  edges (on the edge to \<^verbatim>\<open>t_prime\<close>); for every edge upper minus lower bound; infinity on
  the edge from sink to source, written last.
\<close>

fun node_capacities_loop ::
  "node list \<Rightarrow> edge list \<Rightarrow> (edge, num) dict \<Rightarrow> (edge, num) dict \<Rightarrow> error + (edge, num) dict" where
  "node_capacities_loop [] edges lower_bounds capacities = Inr capacities"
| "node_capacities_loop (n # ns) edges lower_bounds capacities =
     (case lookup_all lower_bounds (filter (\<lambda>(u, v). v = n) edges) of
        Inl err \<Rightarrow> Inl err
      | Inr ins \<Rightarrow>
     (case py_sum ins of
        Inl err \<Rightarrow> Inl err
      | Inr sum_in \<Rightarrow>
     (case lookup_all lower_bounds (filter (\<lambda>(v, w). v = n) edges) of
        Inl err \<Rightarrow> Inl err
      | Inr outs \<Rightarrow>
     (case py_sum outs of
        Inl err \<Rightarrow> Inl err
      | Inr sum_out \<Rightarrow>
          node_capacities_loop ns edges lower_bounds
            (dict_set (dict_set capacities (''s_prime'', n) sum_in) (n, ''t_prime'') sum_out)))))"

fun edge_capacities_loop ::
  "edge list \<Rightarrow> (edge, num) dict \<Rightarrow> (edge, num) dict \<Rightarrow> (edge, num) dict
    \<Rightarrow> error + (edge, num) dict" where
  "edge_capacities_loop [] lower_bounds upper_bounds capacities = Inr capacities"
| "edge_capacities_loop (e # es) lower_bounds upper_bounds capacities =
     (case dict_get upper_bounds e of
        Inl err \<Rightarrow> Inl err
      | Inr ub \<Rightarrow>
     (case dict_get lower_bounds e of
        Inl err \<Rightarrow> Inl err
      | Inr lb \<Rightarrow>
     (case py_sub ub lb of
        Inl err \<Rightarrow> Inl err
      | Inr c \<Rightarrow> edge_capacities_loop es lower_bounds upper_bounds (dict_set capacities e c))))"

text \<open>\<^verbatim>\<open>feasible_flow[edge] = flow_prime[edge] + lower_bounds[edge]\<close>\<close>

fun add_lower_loop ::
  "edge list \<Rightarrow> (edge, num) dict \<Rightarrow> (edge, num) dict \<Rightarrow> (edge, num) dict
    \<Rightarrow> error + (edge, num) dict" where
  "add_lower_loop [] flow_prime lower_bounds feasible = Inr feasible"
| "add_lower_loop (e # es) flow_prime lower_bounds feasible =
     (case dict_get flow_prime e of
        Inl err \<Rightarrow> Inl err
      | Inr x \<Rightarrow>
     (case dict_get lower_bounds e of
        Inl err \<Rightarrow> Inl err
      | Inr lb \<Rightarrow>
     (case py_add x lb of
        Inl err \<Rightarrow> Inl err
      | Inr y \<Rightarrow> add_lower_loop es flow_prime lower_bounds (dict_set feasible e y))))"

definition min_flow_edges_prime :: "node list \<Rightarrow> edge list \<Rightarrow> node \<Rightarrow> node \<Rightarrow> edge list" where
  "min_flow_edges_prime nodes edges source sink =
     edges @ concat (map (\<lambda>n. [(''s_prime'', n), (n, ''t_prime'')]) nodes) @ [(sink, source)]"

definition min_flow_capacities ::
  "node list \<Rightarrow> edge list \<Rightarrow> (edge, num) dict \<Rightarrow> (edge, num) dict \<Rightarrow> node \<Rightarrow> node
    \<Rightarrow> error + (edge, num) dict" where
  "min_flow_capacities nodes edges lower_bounds upper_bounds source sink =
     (case node_capacities_loop nodes edges lower_bounds [] of
        Inl err \<Rightarrow> Inl err
      | Inr capacities \<Rightarrow>
     (case edge_capacities_loop edges lower_bounds upper_bounds capacities of
        Inl err \<Rightarrow> Inl err
      | Inr capacities' \<Rightarrow> Inr (dict_set capacities' (sink, source) PInf)))"

text \<open>
  The first half of \<^verbatim>\<open>minimum_flow\<close>, run when no feasible flow (or an empty one) is
  given: the maximum flow of the auxiliary graph plus the lower bounds.
\<close>

definition construct_feasible_flow ::
  "node list \<Rightarrow> edge list \<Rightarrow> (edge, num) dict \<Rightarrow> (edge, num) dict \<Rightarrow> node \<Rightarrow> node
    \<Rightarrow> search_method \<Rightarrow> (error + (edge, num) dict) option" where
  "construct_feasible_flow nodes edges lower_bounds upper_bounds source sink search_method =
     (case min_flow_capacities nodes edges lower_bounds upper_bounds source sink of
        Inl err \<Rightarrow> Some (Inl err)
      | Inr capacities \<Rightarrow>
     (case ford_fulkerson (min_flow_edges_prime nodes edges source sink) capacities
             ''s_prime'' ''t_prime'' search_method None of
        None \<Rightarrow> None
      | Some (Inl err) \<Rightarrow> Some (Inl err)
      | Some (Inr (flow_prime, flow_value)) \<Rightarrow>
          Some (add_lower_loop edges flow_prime lower_bounds [])))"

definition minimum_flow ::
  "node list \<Rightarrow> edge list \<Rightarrow> (edge, num) dict \<Rightarrow> (edge, num) dict \<Rightarrow> node \<Rightarrow> node
    \<Rightarrow> search_method \<Rightarrow> (edge, num) dict option
    \<Rightarrow> (error + ((edge, num) dict \<times> num)) option" where
  "minimum_flow nodes edges lower_bounds upper_bounds source sink search_method feasible_flow0 =
     (case (case feasible_flow0 of
              None \<Rightarrow> construct_feasible_flow nodes edges lower_bounds upper_bounds source sink
                        search_method
            | Some f \<Rightarrow>
                if f = [] then
                  construct_feasible_flow nodes edges lower_bounds upper_bounds source sink
                    search_method
                else Some (Inr f)) of
        None \<Rightarrow> None
      | Some (Inl err) \<Rightarrow> Some (Inl err)
      | Some (Inr feasible) \<Rightarrow>
     (case ford_fulkerson_min_flow edges lower_bounds upper_bounds sink source search_method
             (Some feasible) of
        None \<Rightarrow> None
      | Some (Inl err) \<Rightarrow> Some (Inl err)
      | Some (Inr (min_flow, min_flow_value)) \<Rightarrow> Some (Inr (min_flow, py_neg min_flow_value))))"

section \<open>shortest\_path.py: Bellman-Ford\<close>

text \<open>
  \<^verbatim>\<open>initialise\<close>: the source first, then every other node in order. A parent is a node
  or \<^verbatim>\<open>None\<close>.
\<close>

fun initialise_loop ::
  "node list \<Rightarrow> node \<Rightarrow> (node, node option) dict \<Rightarrow> (node, num) dict
    \<Rightarrow> (node, node option) dict \<times> (node, num) dict" where
  "initialise_loop [] s parents distances = (parents, distances)"
| "initialise_loop (n # ns) s parents distances =
     (if n \<noteq> s then initialise_loop ns s (dict_set parents n None) (dict_set distances n PInf)
      else initialise_loop ns s parents distances)"

definition initialise ::
  "node list \<Rightarrow> node \<Rightarrow> (node, node option) dict \<Rightarrow> (node, num) dict
    \<Rightarrow> (node, node option) dict \<times> (node, num) dict" where
  "initialise nodes s parents distances =
     initialise_loop nodes s (dict_set parents s None) (dict_set distances s (Fin 0))"

definition relax ::
  "edge \<Rightarrow> (edge, num) dict \<Rightarrow> (node, node option) dict \<Rightarrow> (node, num) dict
    \<Rightarrow> error + ((node, node option) dict \<times> (node, num) dict)" where
  "relax e weights parents distances =
     (case e of (u, v) \<Rightarrow>
     (case dict_get distances v of
        Inl err \<Rightarrow> Inl err
      | Inr dv \<Rightarrow>
     (case dict_get distances u of
        Inl err \<Rightarrow> Inl err
      | Inr du \<Rightarrow>
     (case dict_get weights (u, v) of
        Inl err \<Rightarrow> Inl err
      | Inr w \<Rightarrow>
     (case py_add du w of
        Inl err \<Rightarrow> Inl err
      | Inr d \<Rightarrow>
          if py_gt dv d then Inr (dict_set parents v (Some u), dict_set distances v d)
          else Inr (parents, distances))))))"

fun relax_all ::
  "edge list \<Rightarrow> (edge, num) dict \<Rightarrow> (node, node option) dict \<Rightarrow> (node, num) dict
    \<Rightarrow> error + ((node, node option) dict \<times> (node, num) dict)" where
  "relax_all [] weights parents distances = Inr (parents, distances)"
| "relax_all (e # es) weights parents distances =
     (case relax e weights parents distances of
        Inl err \<Rightarrow> Inl err
      | Inr (parents', distances') \<Rightarrow> relax_all es weights parents' distances')"

fun relax_rounds ::
  "nat \<Rightarrow> edge list \<Rightarrow> (edge, num) dict \<Rightarrow> (node, node option) dict \<Rightarrow> (node, num) dict
    \<Rightarrow> error + ((node, node option) dict \<times> (node, num) dict)" where
  "relax_rounds 0 edges weights parents distances = Inr (parents, distances)"
| "relax_rounds (Suc i) edges weights parents distances =
     (case relax_all edges weights parents distances of
        Inl err \<Rightarrow> Inl err
      | Inr (parents', distances') \<Rightarrow> relax_rounds i edges weights parents' distances')"

text \<open>The last loop of \<^verbatim>\<open>bellman_ford\<close>: is some edge still relaxable?\<close>

fun negative_cycle :: "edge list \<Rightarrow> (edge, num) dict \<Rightarrow> (node, num) dict \<Rightarrow> error + bool" where
  "negative_cycle [] weights distances = Inr False"
| "negative_cycle ((u, v) # es) weights distances =
     (case dict_get distances v of
        Inl err \<Rightarrow> Inl err
      | Inr dv \<Rightarrow>
     (case dict_get distances u of
        Inl err \<Rightarrow> Inl err
      | Inr du \<Rightarrow>
     (case dict_get weights (u, v) of
        Inl err \<Rightarrow> Inl err
      | Inr w \<Rightarrow>
     (case py_add du w of
        Inl err \<Rightarrow> Inl err
      | Inr d \<Rightarrow> if py_gt dv d then Inr True else negative_cycle es weights distances))))"

text \<open>
  \<^verbatim>\<open>bellman_ford\<close> returns the nodes with the parents and the distances, or with
  \<^verbatim>\<open>None\<close> twice when an edge is still relaxable after the rounds.
\<close>

definition bellman_ford ::
  "node list \<Rightarrow> edge list \<Rightarrow> (edge, num) dict \<Rightarrow> node
    \<Rightarrow> error + (node list \<times> ((node, node option) dict \<times> (node, num) dict) option)" where
  "bellman_ford nodes edges weights s =
     (case initialise nodes s [] [] of (parents, distances) \<Rightarrow>
     (case relax_rounds (length nodes - 1) edges weights parents distances of
        Inl err \<Rightarrow> Inl err
      | Inr (parents', distances') \<Rightarrow>
     (case negative_cycle edges weights distances' of
        Inl err \<Rightarrow> Inl err
      | Inr True \<Rightarrow> Inr (nodes, None)
      | Inr False \<Rightarrow> Inr (nodes, Some (parents', distances')))))"

section \<open>minimum\_cost\_flow.py\<close>

text \<open>
  The residual graph of the minimum cost solver: capacities as in the maximum flow
  builder, the cost of an edge and its negation on the reverse edge, the edges of
  positive residual capacity, and the residual supply of every node.
\<close>

fun residual_loop_mcf ::
  "edge list \<Rightarrow> (edge, num) dict \<Rightarrow> (edge, num) dict \<Rightarrow> (edge, num) dict
    \<Rightarrow> (edge, num) dict \<Rightarrow> (edge, num) dict
    \<Rightarrow> error + ((edge, num) dict \<times> (edge, num) dict)" where
  "residual_loop_mcf [] capacities costs flow residual_capacities residual_costs =
     Inr (residual_capacities, residual_costs)"
| "residual_loop_mcf ((u, v) # es) capacities costs flow residual_capacities residual_costs =
     (case dict_get capacities (u, v) of
        Inl err \<Rightarrow> Inl err
      | Inr c \<Rightarrow>
     (case dict_get flow (u, v) of
        Inl err \<Rightarrow> Inl err
      | Inr f \<Rightarrow>
     (case py_sub c f of
        Inl err \<Rightarrow> Inl err
      | Inr r \<Rightarrow>
     (case dict_get costs (u, v) of
        Inl err \<Rightarrow> Inl err
      | Inr k \<Rightarrow>
          residual_loop_mcf es capacities costs flow
            (dict_set (dict_set residual_capacities (u, v) r) (v, u) f)
            (dict_set (dict_set residual_costs (u, v) k) (v, u) (py_neg k))))))"

fun positive_edges :: "edge list \<Rightarrow> (edge, num) dict \<Rightarrow> error + edge list" where
  "positive_edges [] residual_capacities = Inr []"
| "positive_edges (e # es) residual_capacities =
     (case dict_get residual_capacities e of
        Inl err \<Rightarrow> Inl err
      | Inr c \<Rightarrow>
     (case positive_edges es residual_capacities of
        Inl err \<Rightarrow> Inl err
      | Inr ps \<Rightarrow> Inr (if py_gt c (Fin 0) then e # ps else ps)))"

fun residual_supply_loop ::
  "node list \<Rightarrow> edge list \<Rightarrow> (node, num) dict \<Rightarrow> (edge, num) dict \<Rightarrow> (node, num) dict
    \<Rightarrow> error + (node, num) dict" where
  "residual_supply_loop [] edges supply flow residual_supply = Inr residual_supply"
| "residual_supply_loop (n # ns) edges supply flow residual_supply =
     (case dict_get supply n of
        Inl err \<Rightarrow> Inl err
      | Inr s \<Rightarrow>
     (case lookup_all flow (filter (\<lambda>(u, v). v = n) edges) of
        Inl err \<Rightarrow> Inl err
      | Inr ins \<Rightarrow>
     (case py_sum ins of
        Inl err \<Rightarrow> Inl err
      | Inr sum_in \<Rightarrow>
     (case py_add s sum_in of
        Inl err \<Rightarrow> Inl err
      | Inr a \<Rightarrow>
     (case lookup_all flow (filter (\<lambda>(v, w). v = n) edges) of
        Inl err \<Rightarrow> Inl err
      | Inr outs \<Rightarrow>
     (case py_sum outs of
        Inl err \<Rightarrow> Inl err
      | Inr sum_out \<Rightarrow>
     (case py_sub a sum_out of
        Inl err \<Rightarrow> Inl err
      | Inr rs \<Rightarrow>
          residual_supply_loop ns edges supply flow (dict_set residual_supply n rs))))))))"

definition construct_residual_graph_mcf ::
  "node list \<Rightarrow> edge list \<Rightarrow> (edge, num) dict \<Rightarrow> (edge, num) dict \<Rightarrow> (node, num) dict
    \<Rightarrow> (edge, num) dict
    \<Rightarrow> error + (edge list \<times> (edge, num) dict \<times> (edge, num) dict \<times> (node, num) dict)" where
  "construct_residual_graph_mcf nodes edges capacities costs supply flow =
     (case residual_loop_mcf edges capacities costs flow [] [] of
        Inl err \<Rightarrow> Inl err
      | Inr (residual_capacities, residual_costs) \<Rightarrow>
     (case positive_edges (dict_keys residual_capacities) residual_capacities of
        Inl err \<Rightarrow> Inl err
      | Inr residual_edges \<Rightarrow>
     (case residual_supply_loop nodes edges supply flow [] of
        Inl err \<Rightarrow> Inl err
      | Inr residual_supply \<Rightarrow>
          Inr (residual_edges, residual_capacities, residual_costs, residual_supply))))"

text \<open>The nodes of positive residual supply.\<close>

fun supply_nodes :: "node list \<Rightarrow> (node, num) dict \<Rightarrow> error + node list" where
  "supply_nodes [] residual_supply = Inr []"
| "supply_nodes (n # ns) residual_supply =
     (case dict_get residual_supply n of
        Inl err \<Rightarrow> Inl err
      | Inr s \<Rightarrow>
     (case supply_nodes ns residual_supply of
        Inl err \<Rightarrow> Inl err
      | Inr rest \<Rightarrow> Inr (if py_gt s (Fin 0) then n # rest else rest)))"

text \<open>
  The nodes of negative residual supply that have a parent in the tree. A parent is
  tested for truth: \<^verbatim>\<open>None\<close> and the empty string are false. When Bellman-Ford has
  returned \<^verbatim>\<open>None\<close> for the parents, subscripting it raises TypeError; the subscript is
  evaluated only for a node of negative residual supply.
\<close>

definition truthy_parent :: "node option \<Rightarrow> bool" where
  "truthy_parent p = (case p of None \<Rightarrow> False | Some n \<Rightarrow> n \<noteq> [])"

definition get_parent :: "(node, node option) dict option \<Rightarrow> node \<Rightarrow> error + node option" where
  "get_parent parents n =
     (case parents of None \<Rightarrow> Inl TypeError | Some ps \<Rightarrow> dict_get ps n)"

fun demand_nodes ::
  "node list \<Rightarrow> (node, num) dict \<Rightarrow> (node, node option) dict option \<Rightarrow> error + node list" where
  "demand_nodes [] residual_supply parents = Inr []"
| "demand_nodes (n # ns) residual_supply parents =
     (case dict_get residual_supply n of
        Inl err \<Rightarrow> Inl err
      | Inr s \<Rightarrow>
          if py_lt s (Fin 0) then
            (case get_parent parents n of
               Inl err \<Rightarrow> Inl err
             | Inr p \<Rightarrow>
            (case demand_nodes ns residual_supply parents of
               Inl err \<Rightarrow> Inl err
             | Inr rest \<Rightarrow> Inr (if truthy_parent p then n # rest else rest)))
          else demand_nodes ns residual_supply parents)"

text \<open>
  The walk from the demand node up the parents, collecting the edges; it runs for ever
  on a cycle of parents.
\<close>

partial_function (option) path_walk ::
  "(node, node option) dict option \<Rightarrow> node \<Rightarrow> node option \<Rightarrow> edge list
    \<Rightarrow> (error + edge list) option" where
  "path_walk parents current_node parent augmenting_path_edges =
     (case parent of
        None \<Rightarrow> Some (Inr augmenting_path_edges)
      | Some p \<Rightarrow>
          if p = [] then Some (Inr augmenting_path_edges)
          else
            (case get_parent parents p of
               Inl err \<Rightarrow> Some (Inl err)
             | Inr parent' \<Rightarrow>
                 path_walk parents p parent' (augmenting_path_edges @ [(p, current_node)])))"

declare path_walk.simps [code]

text \<open>Python's \<^verbatim>\<open>min\<close> of three arguments keeps the first of equal values.\<close>

definition py_min3 :: "num \<Rightarrow> num \<Rightarrow> num \<Rightarrow> num" where
  "py_min3 a b c = (let m = (if py_lt b a then b else a) in if py_lt c m then c else m)"

text \<open>
  The main loop of \<^verbatim>\<open>minimum_cost_flow\<close>. Its state is the flow, the residual graph and
  the list of nodes that still have supply to send.
\<close>

partial_function (option) mcf_while ::
  "node list \<Rightarrow> edge list \<Rightarrow> (edge, num) dict \<Rightarrow> (edge, num) dict \<Rightarrow> (node, num) dict
    \<Rightarrow> (edge, num) dict
    \<Rightarrow> (edge list \<times> (edge, num) dict \<times> (edge, num) dict \<times> (node, num) dict)
    \<Rightarrow> node list \<Rightarrow> (error + (edge, num) dict) option" where
  "mcf_while nodes edges capacities costs supply flow residual residual_supply_nodes =
     (case residual_supply_nodes of
        [] \<Rightarrow> Some (Inr flow)
      | supply_node # others \<Rightarrow>
     (case residual of (residual_edges, residual_capacities, residual_costs, residual_supply) \<Rightarrow>
     (case bellman_ford nodes residual_edges residual_costs supply_node of
        Inl err \<Rightarrow> Some (Inl err)
      | Inr (nodes', tree) \<Rightarrow>
     (case demand_nodes nodes' residual_supply (map_option fst tree) of
        Inl err \<Rightarrow> Some (Inl err)
      | Inr [] \<Rightarrow>
          mcf_while nodes' edges capacities costs supply flow residual
            (remove1 supply_node residual_supply_nodes)
      | Inr (demand_node # more) \<Rightarrow>
     (case get_parent (map_option fst tree) demand_node of
        Inl err \<Rightarrow> Some (Inl err)
      | Inr parent \<Rightarrow>
     (case path_walk (map_option fst tree) demand_node parent [] of
        None \<Rightarrow> None
      | Some (Inl err) \<Rightarrow> Some (Inl err)
      | Some (Inr walked) \<Rightarrow>
     (case dict_get residual_supply supply_node of
        Inl err \<Rightarrow> Some (Inl err)
      | Inr rs \<Rightarrow>
     (case dict_get residual_supply demand_node of
        Inl err \<Rightarrow> Some (Inl err)
      | Inr rd \<Rightarrow>
     (case calculate_path_capacity residual_capacities (rev walked) of
        Inl err \<Rightarrow> Some (Inl err)
      | Inr pc \<Rightarrow>
     (case augment_flow edges flow (rev walked) (py_min3 rs (py_neg rd) pc) of
        Inl err \<Rightarrow> Some (Inl err)
      | Inr flow' \<Rightarrow>
     (case construct_residual_graph_mcf nodes' edges capacities costs supply flow' of
        Inl err \<Rightarrow> Some (Inl err)
      | Inr residual' \<Rightarrow>
     (case dict_get (snd (snd (snd residual'))) supply_node of
        Inl err \<Rightarrow> Some (Inl err)
      | Inr rs' \<Rightarrow>
          mcf_while nodes' edges capacities costs supply flow' residual'
            (if py_eq rs' (Fin 0) then remove1 supply_node residual_supply_nodes
             else residual_supply_nodes)))))))))))))"

declare mcf_while.simps [code]

text \<open>
  After the loop: the feasibility check visits every node (it does not stop at the first
  failure), the value is the net outgoing flow of the nodes of positive supply, the cost
  is the sum of flow times cost.
\<close>

fun check_supply_all ::
  "node list \<Rightarrow> (node, num) dict \<Rightarrow> (edge, num) dict \<Rightarrow> edge list \<Rightarrow> bool \<Rightarrow> error + bool" where
  "check_supply_all [] supply flow edges feasible = Inr feasible"
| "check_supply_all (n # ns) supply flow edges feasible =
     (case net_outgoing_flow flow edges n of
        Inl err \<Rightarrow> Inl err
      | Inr net \<Rightarrow>
     (case dict_get supply n of
        Inl err \<Rightarrow> Inl err
      | Inr s \<Rightarrow>
          check_supply_all ns supply flow edges (if \<not> py_eq net s then False else feasible)))"

fun flow_value_loop ::
  "node list \<Rightarrow> (edge, num) dict \<Rightarrow> edge list \<Rightarrow> num \<Rightarrow> error + num" where
  "flow_value_loop [] flow edges flow_value = Inr flow_value"
| "flow_value_loop (n # ns) flow edges flow_value =
     (case net_outgoing_flow flow edges n of
        Inl err \<Rightarrow> Inl err
      | Inr net \<Rightarrow>
     (case py_add flow_value net of
        Inl err \<Rightarrow> Inl err
      | Inr flow_value' \<Rightarrow> flow_value_loop ns flow edges flow_value'))"

fun flow_cost_loop ::
  "edge list \<Rightarrow> (edge, num) dict \<Rightarrow> (edge, num) dict \<Rightarrow> num \<Rightarrow> error + num" where
  "flow_cost_loop [] flow costs flow_cost = Inr flow_cost"
| "flow_cost_loop (e # es) flow costs flow_cost =
     (case dict_get flow e of
        Inl err \<Rightarrow> Inl err
      | Inr f \<Rightarrow>
     (case dict_get costs e of
        Inl err \<Rightarrow> Inl err
      | Inr k \<Rightarrow>
     (case py_mul f k of
        Inl err \<Rightarrow> Inl err
      | Inr fk \<Rightarrow>
     (case py_add flow_cost fk of
        Inl err \<Rightarrow> Inl err
      | Inr flow_cost' \<Rightarrow> flow_cost_loop es flow costs flow_cost'))))"

definition minimum_cost_flow ::
  "node list \<Rightarrow> edge list \<Rightarrow> (edge, num) dict \<Rightarrow> (edge, num) dict \<Rightarrow> (node, num) dict
    \<Rightarrow> (error + (bool \<times> (edge, num) dict \<times> num \<times> num)) option" where
  "minimum_cost_flow nodes edges capacities costs supply =
     (let flow0 = zero_flow_loop edges [] in
      case construct_residual_graph_mcf nodes edges capacities costs supply flow0 of
        Inl err \<Rightarrow> Some (Inl err)
      | Inr residual \<Rightarrow>
     (case supply_nodes nodes (snd (snd (snd residual))) of
        Inl err \<Rightarrow> Some (Inl err)
      | Inr residual_supply_nodes \<Rightarrow>
     (case mcf_while nodes edges capacities costs supply flow0 residual residual_supply_nodes of
        None \<Rightarrow> None
      | Some (Inl err) \<Rightarrow> Some (Inl err)
      | Some (Inr flow) \<Rightarrow>
     (case check_supply_all nodes supply flow edges True of
        Inl err \<Rightarrow> Some (Inl err)
      | Inr feasible \<Rightarrow>
     (case supply_nodes nodes supply of
        Inl err \<Rightarrow> Some (Inl err)
      | Inr positive \<Rightarrow>
     (case flow_value_loop positive flow edges (Fin 0) of
        Inl err \<Rightarrow> Some (Inl err)
      | Inr flow_value \<Rightarrow>
     (case flow_cost_loop edges flow costs (Fin 0) of
        Inl err \<Rightarrow> Some (Inl err)
      | Inr flow_cost \<Rightarrow> Some (Inr (feasible, flow, flow_value, flow_cost)))))))))"

section \<open>Properties of the residual graph builders\<close>

subsection \<open>Dictionary lookups\<close>

lemma dict_get_Inr [simp]: "dict_get d k = Inr v \<longleftrightarrow> map_of d k = Some v"
  by (simp add: dict_get_def split: option.splits)

lemma dict_get_Inl [simp]: "dict_get d k = Inl e \<longleftrightarrow> map_of d k = None \<and> e = KeyError"
  by (auto simp add: dict_get_def split: option.splits)

lemma map_of_dict_set [simp]: "map_of (dict_set d k v) = (map_of d)(k \<mapsto> v)"
  by (simp add: dict_set_def update_conv')

lemma keys_dict_set:
  "map fst (dict_set d k v) = (if k \<in> set (map fst d) then map fst d else map fst d @ [k])"
  by (simp add: dict_set_def update_keys)

lemma distinct_dict_set: "distinct (map fst d) \<Longrightarrow> distinct (map fst (dict_set d k v))"
  by (simp add: keys_dict_set)

lemma set_keys_dict_set: "set (map fst (dict_set d k v)) = insert k (set (map fst d))"
  by (auto simp add: keys_dict_set)

lemma residual_loop_ConsE:
  assumes "residual_loop ((u, v) # es) capacities flow acc = Inr rc"
  obtains c f r where "map_of capacities (u, v) = Some c" "map_of flow (u, v) = Some f"
    "py_sub c f = Inr r"
    "residual_loop es capacities flow (dict_set (dict_set acc (u, v) r) (v, u) f) = Inr rc"
  using assms by (simp split: sum.splits)

lemma lookup_first: "k1 \<noteq> k2 \<Longrightarrow> map_of (dict_set (dict_set acc k1 r) k2 f) k1 = Some r"
  by simp

lemma lookup_second: "map_of (dict_set (dict_set acc k1 r) k2 f) k2 = Some f"
  by simp

lemma lookup_other:
  "k \<noteq> k1 \<Longrightarrow> k \<noteq> k2 \<Longrightarrow> map_of (dict_set (dict_set acc k1 r) k2 f) k = map_of acc k"
  by simp

lemma swap_eq_iff: "prod.swap k = (u, v) \<longleftrightarrow> k = (v, u)"
  by (cases k) auto

lemma residual_loop_other:
  "residual_loop es capacities flow acc = Inr rc \<Longrightarrow> k \<notin> set es \<Longrightarrow> prod.swap k \<notin> set es
     \<Longrightarrow> map_of rc k = map_of acc k"
proof (induction es arbitrary: acc)
  case Nil
  then show ?case by simp
next
  case (Cons e es)
  obtain u v where e: "e = (u, v)" by (cases e)
  from Cons.prems(1) have "residual_loop ((u, v) # es) capacities flow acc = Inr rc"
    unfolding e .
  then obtain c f r where
    rest: "residual_loop es capacities flow (dict_set (dict_set acc (u, v) r) (v, u) f) = Inr rc"
    by (rule residual_loop_ConsE)
  have nin: "k \<notin> set es" "prod.swap k \<notin> set es" using Cons.prems(2,3) by simp_all
  have "k \<noteq> e" "prod.swap k \<noteq> e" using Cons.prems(2,3) by simp_all
  then have ne: "k \<noteq> (u, v)" "k \<noteq> (v, u)" unfolding e swap_eq_iff by blast+
  have "map_of rc k = map_of (dict_set (dict_set acc (u, v) r) (v, u) f) k"
    by (rule Cons.IH[OF rest nin])
  also have "\<dots> = map_of acc k" by (rule lookup_other[OF ne])
  finally show ?case .
qed

lemma residual_loop_edge:
  "residual_loop es capacities flow acc = Inr rc \<Longrightarrow> (u, v) \<in> set es \<Longrightarrow> (v, u) \<notin> set es
     \<Longrightarrow> \<exists>c f r. map_of capacities (u, v) = Some c \<and> map_of flow (u, v) = Some f \<and> py_sub c f = Inr r
           \<and> map_of rc (u, v) = Some r \<and> map_of rc (v, u) = Some f"
proof (induction es arbitrary: acc)
  case Nil
  then show ?case by simp
next
  case (Cons e es)
  obtain a b where e: "e = (a, b)" by (cases e)
  from Cons.prems(1) have "residual_loop ((a, b) # es) capacities flow acc = Inr rc"
    unfolding e .
  then obtain c f r where
    h: "map_of capacities (a, b) = Some c" "map_of flow (a, b) = Some f" "py_sub c f = Inr r"
    and rest: "residual_loop es capacities flow (dict_set (dict_set acc (a, b) r) (b, a) f) = Inr rc"
    by (rule residual_loop_ConsE)
  have rev: "(v, u) \<notin> set es" using Cons.prems(3) by simp
  show ?case
  proof (cases "(u, v) \<in> set es")
    case True
    from Cons.IH[OF rest True rev] show ?thesis .
  next
    case False
    then have "e = (u, v)" using Cons.prems(2) by simp
    then have ab: "a = u" "b = v" unfolding e by simp_all
    have neq: "(v, u) \<noteq> (u, v)" using Cons.prems(2,3) by metis
    note rest' = rest[unfolded ab]
    have "map_of rc (u, v) = map_of (dict_set (dict_set acc (u, v) r) (v, u) f) (u, v)"
      by (rule residual_loop_other[OF rest']) (use False rev in simp_all)
    also have "\<dots> = Some r" by (rule lookup_first[OF neq[symmetric]])
    finally have 1: "map_of rc (u, v) = Some r" .
    have "map_of rc (v, u) = map_of (dict_set (dict_set acc (u, v) r) (v, u) f) (v, u)"
      by (rule residual_loop_other[OF rest']) (use False rev in simp_all)
    also have "\<dots> = Some f" by (rule lookup_second)
    finally have 2: "map_of rc (v, u) = Some f" .
    show ?thesis using h[unfolded ab] 1 2 by blast
  qed
qed

lemma residual_loop_keys:
  "residual_loop es capacities flow acc = Inr rc \<Longrightarrow>
     set (map fst rc) = set (map fst acc) \<union> set es \<union> (\<lambda>(u, v). (v, u)) ` set es
     \<and> (distinct (map fst acc) \<longrightarrow> distinct (map fst rc))"
proof (induction es arbitrary: acc)
  case Nil
  then show ?case by simp
next
  case (Cons e es)
  obtain a b where e: "e = (a, b)" by (cases e)
  from Cons.prems(1) have "residual_loop ((a, b) # es) capacities flow acc = Inr rc"
    unfolding e .
  then obtain c f r where
    rest: "residual_loop es capacities flow (dict_set (dict_set acc (a, b) r) (b, a) f) = Inr rc"
    by (rule residual_loop_ConsE)
  let ?acc = "dict_set (dict_set acc (a, b) r) (b, a) f"
  have k: "set (map fst ?acc) = insert (b, a) (insert (a, b) (set (map fst acc)))"
    by (simp only: set_keys_dict_set)
  have d: "distinct (map fst acc) \<longrightarrow> distinct (map fst ?acc)"
    by (intro impI distinct_dict_set)
  from Cons.IH[OF rest] have
    1: "set (map fst rc) = set (map fst ?acc) \<union> set es \<union> (\<lambda>(u, v). (v, u)) ` set es"
    and 2: "distinct (map fst ?acc) \<longrightarrow> distinct (map fst rc)" by blast+
  have "set (map fst rc) = set (map fst acc) \<union> set (e # es) \<union> (\<lambda>(u, v). (v, u)) ` set (e # es)"
    unfolding 1 k e by auto
  moreover have "distinct (map fst acc) \<longrightarrow> distinct (map fst rc)" using d 2 by blast
  ultimately show ?case by blast
qed

lemma residual_loop_min_flow_ConsE:
  assumes "residual_loop_min_flow ((u, v) # es) lower_bounds upper_bounds flow acc = Inr rc"
  obtains ub f r lb b where "map_of upper_bounds (u, v) = Some ub" "map_of flow (u, v) = Some f"
    "py_sub ub f = Inr r" "map_of lower_bounds (u, v) = Some lb" "py_sub f lb = Inr b"
    "residual_loop_min_flow es lower_bounds upper_bounds flow
       (dict_set (dict_set acc (u, v) r) (v, u) b) = Inr rc"
  using assms by (simp split: sum.splits)

lemma residual_loop_min_flow_other:
  "residual_loop_min_flow es lower_bounds upper_bounds flow acc = Inr rc \<Longrightarrow> k \<notin> set es
     \<Longrightarrow> prod.swap k \<notin> set es \<Longrightarrow> map_of rc k = map_of acc k"
proof (induction es arbitrary: acc)
  case Nil
  then show ?case by simp
next
  case (Cons e es)
  obtain u v where e: "e = (u, v)" by (cases e)
  from Cons.prems(1)
  have "residual_loop_min_flow ((u, v) # es) lower_bounds upper_bounds flow acc = Inr rc"
    unfolding e .
  then obtain r b where
    rest: "residual_loop_min_flow es lower_bounds upper_bounds flow
             (dict_set (dict_set acc (u, v) r) (v, u) b) = Inr rc"
    by (rule residual_loop_min_flow_ConsE)
  have nin: "k \<notin> set es" "prod.swap k \<notin> set es" using Cons.prems(2,3) by simp_all
  have "k \<noteq> e" "prod.swap k \<noteq> e" using Cons.prems(2,3) by simp_all
  then have ne: "k \<noteq> (u, v)" "k \<noteq> (v, u)" unfolding e swap_eq_iff by blast+
  have "map_of rc k = map_of (dict_set (dict_set acc (u, v) r) (v, u) b) k"
    by (rule Cons.IH[OF rest nin])
  also have "\<dots> = map_of acc k" by (rule lookup_other[OF ne])
  finally show ?case .
qed

lemma residual_loop_min_flow_edge:
  "residual_loop_min_flow es lower_bounds upper_bounds flow acc = Inr rc \<Longrightarrow> (u, v) \<in> set es
     \<Longrightarrow> (v, u) \<notin> set es
     \<Longrightarrow> \<exists>ub f r lb b. map_of upper_bounds (u, v) = Some ub \<and> map_of flow (u, v) = Some f
           \<and> py_sub ub f = Inr r \<and> map_of lower_bounds (u, v) = Some lb \<and> py_sub f lb = Inr b
           \<and> map_of rc (u, v) = Some r \<and> map_of rc (v, u) = Some b"
proof (induction es arbitrary: acc)
  case Nil
  then show ?case by simp
next
  case (Cons e es)
  obtain a b where e: "e = (a, b)" by (cases e)
  from Cons.prems(1)
  have "residual_loop_min_flow ((a, b) # es) lower_bounds upper_bounds flow acc = Inr rc"
    unfolding e .
  then obtain ub f r lb bw where
    h: "map_of upper_bounds (a, b) = Some ub" "map_of flow (a, b) = Some f" "py_sub ub f = Inr r"
       "map_of lower_bounds (a, b) = Some lb" "py_sub f lb = Inr bw"
    and rest: "residual_loop_min_flow es lower_bounds upper_bounds flow
                 (dict_set (dict_set acc (a, b) r) (b, a) bw) = Inr rc"
    by (rule residual_loop_min_flow_ConsE)
  have rev: "(v, u) \<notin> set es" using Cons.prems(3) by simp
  show ?case
  proof (cases "(u, v) \<in> set es")
    case True
    from Cons.IH[OF rest True rev] show ?thesis .
  next
    case False
    then have "e = (u, v)" using Cons.prems(2) by simp
    then have ab: "a = u" "b = v" unfolding e by simp_all
    have neq: "(v, u) \<noteq> (u, v)" using Cons.prems(2,3) by metis
    note rest' = rest[unfolded ab]
    have "map_of rc (u, v) = map_of (dict_set (dict_set acc (u, v) r) (v, u) bw) (u, v)"
      by (rule residual_loop_min_flow_other[OF rest']) (use False rev in simp_all)
    also have "\<dots> = Some r" by (rule lookup_first[OF neq[symmetric]])
    finally have 1: "map_of rc (u, v) = Some r" .
    have "map_of rc (v, u) = map_of (dict_set (dict_set acc (u, v) r) (v, u) bw) (v, u)"
      by (rule residual_loop_min_flow_other[OF rest']) (use False rev in simp_all)
    also have "\<dots> = Some bw" by (rule lookup_second)
    finally have 2: "map_of rc (v, u) = Some bw" .
    show ?thesis using h[unfolded ab] 1 2 by blast
  qed
qed

lemma residual_loop_min_flow_keys:
  "residual_loop_min_flow es lower_bounds upper_bounds flow acc = Inr rc \<Longrightarrow>
     set (map fst rc) = set (map fst acc) \<union> set es \<union> (\<lambda>(u, v). (v, u)) ` set es
     \<and> (distinct (map fst acc) \<longrightarrow> distinct (map fst rc))"
proof (induction es arbitrary: acc)
  case Nil
  then show ?case by simp
next
  case (Cons e es)
  obtain a b where e: "e = (a, b)" by (cases e)
  from Cons.prems(1)
  have "residual_loop_min_flow ((a, b) # es) lower_bounds upper_bounds flow acc = Inr rc"
    unfolding e .
  then obtain r bw where
    rest: "residual_loop_min_flow es lower_bounds upper_bounds flow
             (dict_set (dict_set acc (a, b) r) (b, a) bw) = Inr rc"
    by (rule residual_loop_min_flow_ConsE)
  let ?acc = "dict_set (dict_set acc (a, b) r) (b, a) bw"
  have k: "set (map fst ?acc) = insert (b, a) (insert (a, b) (set (map fst acc)))"
    by (simp only: set_keys_dict_set)
  have d: "distinct (map fst acc) \<longrightarrow> distinct (map fst ?acc)"
    by (intro impI distinct_dict_set)
  from Cons.IH[OF rest] have
    1: "set (map fst rc) = set (map fst ?acc) \<union> set es \<union> (\<lambda>(u, v). (v, u)) ` set es"
    and 2: "distinct (map fst ?acc) \<longrightarrow> distinct (map fst rc)" by blast+
  have "set (map fst rc) = set (map fst acc) \<union> set (e # es) \<union> (\<lambda>(u, v). (v, u)) ` set (e # es)"
    unfolding 1 k e by auto
  moreover have "distinct (map fst acc) \<longrightarrow> distinct (map fst rc)" using d 2 by blast
  ultimately show ?case by blast
qed

lemma count_list_distinct: "distinct xs \<Longrightarrow> x \<in> set xs \<Longrightarrow> count_list xs x = 1"
  by (induction xs) auto

lemma py_sub_zero: "py_sub c (Fin 0) = Inr c"
  by (cases c) (simp_all add: float_overflow_def)

lemma py_sub_add_back: "py_sub c (Fin x) = Inr r \<Longrightarrow> py_add r (Fin x) = Inr c"
  by (cases c) (auto split: if_splits)

lemma not_float_overflow_0 [simp]: "\<not> float_overflow 0"
  by (simp add: float_overflow_def)


text \<open>
  Claim C2, amended. Let \<open>(u, v)\<close> be an edge of the input whose reverse \<open>(v, u)\<close> is not
  an edge of the input (so \<open>u \<noteq> v\<close>). Whenever a builder returns, the residual edge list
  holds \<open>(u, v)\<close> and \<open>(v, u)\<close> exactly once each. In the capacity-only variant the
  forward entry is capacity minus flow and the backward entry is the flow; for an integer
  flow the two add up to the capacity, and for flow zero the forward entry is the capacity
  itself and the backward entry is zero. In the bounded variant the forward entry is upper
  minus flow and the backward entry is flow minus lower; for integer bounds and flow the
  two add up to upper minus lower.
\<close>

theorem residual_entries_sum:
  assumes "(u, v) \<in> set edges" and "(v, u) \<notin> set edges"
  shows "(construct_residual_graph edges capacities flow = Inr (residual_edges, residual_capacities)
           \<longrightarrow> (\<exists>c f r. dict_get capacities (u, v) = Inr c \<and> dict_get flow (u, v) = Inr f
                  \<and> py_sub c f = Inr r
                  \<and> dict_get residual_capacities (u, v) = Inr r
                  \<and> dict_get residual_capacities (v, u) = Inr f
                  \<and> count_list residual_edges (u, v) = 1 \<and> count_list residual_edges (v, u) = 1
                  \<and> (u, v) \<noteq> (v, u)
                  \<and> (\<forall>x. f = Fin x \<longrightarrow> py_add r f = Inr c)
                  \<and> (f = Fin 0 \<longrightarrow> r = c)))
       \<and> (construct_residual_graph_min_flow edges lower_bounds upper_bounds flow
             = Inr (residual_edges', residual_capacities')
           \<longrightarrow> (\<exists>ub f r lb b. dict_get upper_bounds (u, v) = Inr ub \<and> dict_get flow (u, v) = Inr f
                  \<and> dict_get lower_bounds (u, v) = Inr lb
                  \<and> py_sub ub f = Inr r \<and> py_sub f lb = Inr b
                  \<and> dict_get residual_capacities' (u, v) = Inr r
                  \<and> dict_get residual_capacities' (v, u) = Inr b
                  \<and> count_list residual_edges' (u, v) = 1 \<and> count_list residual_edges' (v, u) = 1
                  \<and> (\<forall>h x l. ub = Fin h \<and> f = Fin x \<and> lb = Fin l
                        \<longrightarrow> py_add r b = Inr (Fin (h - l)))))"
proof (intro conjI impI)
  assume a: "construct_residual_graph edges capacities flow = Inr (residual_edges, residual_capacities)"
  then have loop: "residual_loop edges capacities flow [] = Inr residual_capacities"
    and keys: "residual_edges = map fst residual_capacities"
    by (auto simp add: construct_residual_graph_def dict_keys_def split: sum.splits)
  from residual_loop_edge[OF loop assms] obtain c f r where
    h: "map_of capacities (u, v) = Some c" "map_of flow (u, v) = Some f" "py_sub c f = Inr r"
       "map_of residual_capacities (u, v) = Some r" "map_of residual_capacities (v, u) = Some f"
    by blast
  from residual_loop_keys[OF loop] have
    ks: "set (map fst residual_capacities) = set edges \<union> (\<lambda>(u, v). (v, u)) ` set edges"
    and d: "distinct (map fst residual_capacities)" by simp_all
  have m1: "(u, v) \<in> set residual_edges" unfolding keys ks using assms(1) by blast
  have m2: "(v, u) \<in> set residual_edges" unfolding keys ks using assms(1) by force
  have c1: "count_list residual_edges (u, v) = 1"
    using d m1 unfolding keys by (rule count_list_distinct)
  have c2: "count_list residual_edges (v, u) = 1"
    using d m2 unfolding keys by (rule count_list_distinct)
  have neq: "(u, v) \<noteq> (v, u)" using assms by metis
  have s1: "\<forall>x. f = Fin x \<longrightarrow> py_add r f = Inr c" using h(3) py_sub_add_back by blast
  have s2: "f = Fin 0 \<longrightarrow> r = c" using h(3) py_sub_zero[of c] by auto
  show "\<exists>c f r. dict_get capacities (u, v) = Inr c \<and> dict_get flow (u, v) = Inr f
                  \<and> py_sub c f = Inr r
                  \<and> dict_get residual_capacities (u, v) = Inr r
                  \<and> dict_get residual_capacities (v, u) = Inr f
                  \<and> count_list residual_edges (u, v) = 1 \<and> count_list residual_edges (v, u) = 1
                  \<and> (u, v) \<noteq> (v, u)
                  \<and> (\<forall>x. f = Fin x \<longrightarrow> py_add r f = Inr c)
                  \<and> (f = Fin 0 \<longrightarrow> r = c)"
    unfolding dict_get_Inr using h c1 c2 neq s1 s2 by blast
next
  assume a: "construct_residual_graph_min_flow edges lower_bounds upper_bounds flow
             = Inr (residual_edges', residual_capacities')"
  then have loop: "residual_loop_min_flow edges lower_bounds upper_bounds flow [] = Inr residual_capacities'"
    and keys: "residual_edges' = map fst residual_capacities'"
    by (auto simp add: construct_residual_graph_min_flow_def dict_keys_def split: sum.splits)
  from residual_loop_min_flow_edge[OF loop assms] obtain ub f r lb b where
    h: "map_of upper_bounds (u, v) = Some ub" "map_of flow (u, v) = Some f" "py_sub ub f = Inr r"
       "map_of lower_bounds (u, v) = Some lb" "py_sub f lb = Inr b"
       "map_of residual_capacities' (u, v) = Some r" "map_of residual_capacities' (v, u) = Some b"
    by blast
  from residual_loop_min_flow_keys[OF loop] have
    ks: "set (map fst residual_capacities') = set edges \<union> (\<lambda>(u, v). (v, u)) ` set edges"
    and d: "distinct (map fst residual_capacities')" by simp_all
  have m1: "(u, v) \<in> set residual_edges'" unfolding keys ks using assms(1) by blast
  have m2: "(v, u) \<in> set residual_edges'" unfolding keys ks using assms(1) by force
  have c1: "count_list residual_edges' (u, v) = 1"
    using d m1 unfolding keys by (rule count_list_distinct)
  have c2: "count_list residual_edges' (v, u) = 1"
    using d m2 unfolding keys by (rule count_list_distinct)
  have s1: "\<forall>h x l. ub = Fin h \<and> f = Fin x \<and> lb = Fin l \<longrightarrow> py_add r b = Inr (Fin (h - l))"
    using h(3,5) by auto
  show "\<exists>ub f r lb b. dict_get upper_bounds (u, v) = Inr ub \<and> dict_get flow (u, v) = Inr f
                  \<and> dict_get lower_bounds (u, v) = Inr lb
                  \<and> py_sub ub f = Inr r \<and> py_sub f lb = Inr b
                  \<and> dict_get residual_capacities' (u, v) = Inr r
                  \<and> dict_get residual_capacities' (v, u) = Inr b
                  \<and> count_list residual_edges' (u, v) = 1 \<and> count_list residual_edges' (v, u) = 1
                  \<and> (\<forall>h x l. ub = Fin h \<and> f = Fin x \<and> lb = Fin l
                        \<longrightarrow> py_add r b = Inr (Fin (h - l)))"
    unfolding dict_get_Inr using h c1 c2 s1 by blast
qed

text \<open>
  The amended claim C2 at the single edge \<open>(s, t)\<close> with capacity 3, lower bound 1
  and flow 1.
\<close>

theorem residual_entries_sum_witness:
  "(''s'', ''t'') \<in> set [(''s'', ''t'')] \<and> (''t'', ''s'') \<notin> set [(''s'', ''t'')]
   \<and> construct_residual_graph [(''s'', ''t'')] [((''s'', ''t''), Fin 3)] [((''s'', ''t''), Fin 1)]
       = Inr ([(''s'', ''t''), (''t'', ''s'')], [((''s'', ''t''), Fin 2), ((''t'', ''s''), Fin 1)])
   \<and> construct_residual_graph_min_flow [(''s'', ''t'')] [((''s'', ''t''), Fin 1)]
         [((''s'', ''t''), Fin 3)] [((''s'', ''t''), Fin 1)]
       = Inr ([(''s'', ''t''), (''t'', ''s'')], [((''s'', ''t''), Fin 2), ((''t'', ''s''), Fin 0)])
   \<and> (\<exists>c f r. dict_get [((''s'', ''t''), Fin 3)] (''s'', ''t'') = Inr c
          \<and> dict_get [((''s'', ''t''), Fin 1)] (''s'', ''t'') = Inr f
          \<and> py_sub c f = Inr r \<and> py_add r f = Inr c
          \<and> dict_get [((''s'', ''t''), Fin 2), ((''t'', ''s''), Fin 1)] (''s'', ''t'') = Inr r
          \<and> dict_get [((''s'', ''t''), Fin 2), ((''t'', ''s''), Fin 1)] (''t'', ''s'') = Inr f)"
proof -
  have e: "(''s'', ''t'') \<in> set [(''s'', ''t'')]" by simp
  have n: "(''t'', ''s'') \<notin> set [(''s'', ''t'')]" by simp
  have a: "construct_residual_graph [(''s'', ''t'')] [((''s'', ''t''), Fin 3)] [((''s'', ''t''), Fin 1)]
       = Inr ([(''s'', ''t''), (''t'', ''s'')], [((''s'', ''t''), Fin 2), ((''t'', ''s''), Fin 1)])"
    by (simp add: construct_residual_graph_def dict_set_def dict_get_def dict_keys_def)
  have b: "construct_residual_graph_min_flow [(''s'', ''t'')] [((''s'', ''t''), Fin 1)]
         [((''s'', ''t''), Fin 3)] [((''s'', ''t''), Fin 1)]
       = Inr ([(''s'', ''t''), (''t'', ''s'')], [((''s'', ''t''), Fin 2), ((''t'', ''s''), Fin 0)])"
    by (simp add: construct_residual_graph_min_flow_def dict_set_def dict_get_def dict_keys_def)
  from residual_entries_sum[OF e n, of "[((''s'', ''t''), Fin 3)]" "[((''s'', ''t''), Fin 1)]"
      "[(''s'', ''t''), (''t'', ''s'')]" "[((''s'', ''t''), Fin 2), ((''t'', ''s''), Fin 1)]"]
  have "\<exists>c f r. dict_get [((''s'', ''t''), Fin 3)] (''s'', ''t'') = Inr c
          \<and> dict_get [((''s'', ''t''), Fin 1)] (''s'', ''t'') = Inr f
          \<and> py_sub c f = Inr r \<and> py_add r f = Inr c
          \<and> dict_get [((''s'', ''t''), Fin 2), ((''t'', ''s''), Fin 1)] (''s'', ''t'') = Inr r
          \<and> dict_get [((''s'', ''t''), Fin 2), ((''t'', ''s''), Fin 1)] (''t'', ''s'') = Inr f"
    using a by fastforce
  then show ?thesis using e n a b by blast
qed

text \<open>
  Claim C2 as stated fails when an edge and its reverse are both in the input: the second
  edge overwrites both entries of the first. With capacities \<open>(a, b) = 3\<close>, \<open>(b, a) = 5\<close>
  and the zero flow, the entry of \<open>(a, b)\<close> is 0, not 3, and the entries of \<open>(a, b)\<close> and
  \<open>(b, a)\<close> add up to 5; likewise in the bounded variant.
\<close>

theorem residual_antiparallel_counterexample:
  "construct_residual_graph [(''a'', ''b''), (''b'', ''a'')]
       [((''a'', ''b''), Fin 3), ((''b'', ''a''), Fin 5)]
       [((''a'', ''b''), Fin 0), ((''b'', ''a''), Fin 0)]
     = Inr ([(''a'', ''b''), (''b'', ''a'')], [((''a'', ''b''), Fin 0), ((''b'', ''a''), Fin 5)])
   \<and> py_add (Fin 0) (Fin 5) \<noteq> Inr (Fin 3)
   \<and> construct_residual_graph_min_flow [(''a'', ''b''), (''b'', ''a'')]
       [((''a'', ''b''), Fin 1), ((''b'', ''a''), Fin 0)]
       [((''a'', ''b''), Fin 3), ((''b'', ''a''), Fin 5)]
       [((''a'', ''b''), Fin 1), ((''b'', ''a''), Fin 0)]
     = Inr ([(''a'', ''b''), (''b'', ''a'')], [((''a'', ''b''), Fin 0), ((''b'', ''a''), Fin 5)])
   \<and> py_add (Fin 0) (Fin 5) \<noteq> Inr (Fin (3 - 1))"
  by (simp add: construct_residual_graph_def construct_residual_graph_min_flow_def dict_set_def
        dict_get_def dict_keys_def)


section \<open>The search strategies on a path of infinite capacity\<close>

text \<open>
  Claim C3 says that each of the four strategies returns a path whenever one exists.
  \<^verbatim>\<open>find_augmenting_path_min\<close> does not: its best capacity so far starts at infinity and
  a path replaces it only when strictly smaller, so a path whose edges all have infinite
  residual capacity is never chosen. On the residual graph of the single edge \<open>(s, t)\<close> of
  infinite capacity under the zero flow, the minimum strategy returns none, while the
  other three return the path \<open>[s, t]\<close>.
\<close>

theorem find_augmenting_path_min_infinite_path:
  "find_augmenting_path_min [(''s'', ''t''), (''t'', ''s'')]
       [((''s'', ''t''), PInf), ((''t'', ''s''), Fin 0)] ''s'' ''t'' = Inr None
   \<and> find_augmenting_path_max [(''s'', ''t''), (''t'', ''s'')]
       [((''s'', ''t''), PInf), ((''t'', ''s''), Fin 0)] ''s'' ''t'' = Inr (Some [''s'', ''t''])
   \<and> find_augmenting_path_bfs [(''s'', ''t''), (''t'', ''s'')]
       [((''s'', ''t''), PInf), ((''t'', ''s''), Fin 0)] ''s'' ''t'' = Inr (Some [''s'', ''t''])
   \<and> find_augmenting_path_dfs [(''s'', ''t''), (''t'', ''s'')]
       [((''s'', ''t''), PInf), ((''t'', ''s''), Fin 0)] ''s'' ''t'' = Inr (Some [''s'', ''t''])
   \<and> construct_residual_graph [(''s'', ''t'')] [((''s'', ''t''), PInf)] [((''s'', ''t''), Fin 0)]
     = Inr ([(''s'', ''t''), (''t'', ''s'')], [((''s'', ''t''), PInf), ((''t'', ''s''), Fin 0)])"
  by code_simp


section \<open>A source that is not in the graph\<close>

lemma zero_flow_loop_lookup:
  "map_of (zero_flow_loop es acc) k = (if k \<in> set es then Some (Fin 0) else map_of acc k)"
  by (induction es arbitrary: acc) simp_all

lemma zero_flow_loop_keys:
  "set (map fst (zero_flow_loop es acc)) = set (map fst acc) \<union> set es"
  by (induction es arbitrary: acc) (simp_all add: set_keys_dict_set del: set_map)

lemma zero_flow_loop_distinct:
  "distinct (map fst acc) \<Longrightarrow> distinct (map fst (zero_flow_loop es acc))"
  by (induction es arbitrary: acc) (simp_all add: distinct_dict_set del: distinct_map)

lemma residual_loop_succeeds:
  "(\<And>e. e \<in> set es \<Longrightarrow> \<exists>c f r. map_of capacities e = Some c \<and> map_of flow e = Some f
        \<and> py_sub c f = Inr r)
   \<Longrightarrow> \<exists>rc. residual_loop es capacities flow acc = Inr rc"
proof (induction es arbitrary: acc)
  case Nil
  show ?case by simp
next
  case (Cons e es)
  obtain u v where e: "e = (u, v)" by (cases e)
  have "e \<in> set (e # es)" by simp
  from Cons.prems[OF this] obtain c f r where
    h: "map_of capacities (u, v) = Some c" "map_of flow (u, v) = Some f" "py_sub c f = Inr r"
    unfolding e by blast
  have "\<exists>rc. residual_loop es capacities flow (dict_set (dict_set acc (u, v) r) (v, u) f) = Inr rc"
    by (rule Cons.IH) (rule Cons.prems, simp)
  then show ?case unfolding e using h by (simp add: dict_get_def)
qed

lemma successors_none:
  "cur \<notin> fst ` set es \<Longrightarrow> successors es rc cur seen = Inr []"
proof (induction es)
  case Nil
  show ?case by simp
next
  case (Cons e es)
  obtain u v where e: "e = (u, v)" by (cases e)
  have "u \<noteq> cur" using Cons.prems unfolding e by auto
  moreover have "successors es rc cur seen = Inr []" using Cons by simp
  ultimately show ?case unfolding e by simp
qed

lemma bfs_isolated_source:
  assumes "source \<notin> fst ` set es" "source \<noteq> sink"
  shows "find_augmenting_path_bfs es rc source sink = Inr None"
  unfolding find_augmenting_path_bfs_def using assms by (simp add: successors_none)

lemma dfs_isolated_source:
  assumes "source \<notin> fst ` set es" "source \<noteq> sink"
  shows "find_augmenting_path_dfs es rc source sink = Inr None"
  unfolding find_augmenting_path_dfs_def using assms by (simp add: successors_none)

lemma all_paths_isolated_source:
  assumes "source \<notin> fst ` set es" "source \<noteq> sink"
  shows "all_paths_loop es rc sink [[source]] [] = Inr []"
  using assms by (simp add: successors_none)

lemma max_isolated_source:
  assumes "source \<notin> fst ` set es" "source \<noteq> sink"
  shows "find_augmenting_path_max es rc source sink = Inr None"
  unfolding find_augmenting_path_max_def all_paths_isolated_source[OF assms]
  by (simp only: sum.case max_select.simps)

lemma min_isolated_source:
  assumes "source \<notin> fst ` set es" "source \<noteq> sink"
  shows "find_augmenting_path_min es rc source sink = Inr None"
  unfolding find_augmenting_path_min_def all_paths_isolated_source[OF assms]
  by (simp only: sum.case min_select.simps)

lemma filter_none: "(\<And>x. x \<in> set xs \<Longrightarrow> \<not> P x) \<Longrightarrow> filter P xs = []"
  by (induction xs) simp_all

lemma calculate_flow_value_isolated:
  assumes "\<And>u v. (u, v) \<in> set (map fst flow) \<Longrightarrow> u \<noteq> n \<and> v \<noteq> n"
  shows "calculate_flow_value flow n = Inr (Fin 0)"
proof -
  have 1: "filter (\<lambda>((u, v), x). u = n) flow = []"
  proof (rule filter_none)
    fix x assume x: "x \<in> set flow"
    obtain u v y where xe: "x = ((u, v), y)" by (cases x) auto
    have "(u, v) \<in> set (map fst flow)" using x xe by force
    from assms[OF this] show "\<not> (case x of (x, xa) \<Rightarrow> (case x of (u, v) \<Rightarrow> \<lambda>x. u = n) xa)"
      unfolding xe by simp
  qed
  have 2: "filter (\<lambda>((u, v), x). v = n) flow = []"
  proof (rule filter_none)
    fix x assume x: "x \<in> set flow"
    obtain u v y where xe: "x = ((u, v), y)" by (cases x) auto
    have "(u, v) \<in> set (map fst flow)" using x xe by force
    from assms[OF this] show "\<not> (case x of (x, xa) \<Rightarrow> (case x of (u, v) \<Rightarrow> \<lambda>x. v = n) xa)"
      unfolding xe by simp
  qed
  show ?thesis unfolding calculate_flow_value_def 1 2 by simp
qed


text \<open>
  Claim C9, amended. The code has no NodeNotFound condition. If the source is an endpoint
  of no edge, differs from the sink, and every edge has a capacity, then under each of
  the four search strategies \<^verbatim>\<open>ford_fulkerson\<close> started without a flow returns normally:
  the all-zero flow and the value 0.
\<close>

theorem absent_source_returns_zero_flow:
  assumes "\<forall>(u, v) \<in> set edges. u \<noteq> source \<and> v \<noteq> source"
    and "source \<noteq> sink"
    and "\<forall>e \<in> set edges. \<exists>c. dict_get capacities e = Inr c"
    and "search_method \<in> {find_augmenting_path_bfs, find_augmenting_path_dfs,
                           find_augmenting_path_max, find_augmenting_path_min}"
  shows "ford_fulkerson edges capacities source sink search_method None
           = Some (Inr (zero_flow_loop edges [], Fin 0))"
proof -
  let ?flow = "zero_flow_loop edges []"
  have "\<exists>rc. residual_loop edges capacities ?flow [] = Inr rc"
  proof (rule residual_loop_succeeds)
    fix e assume e: "e \<in> set edges"
    then obtain c where "map_of capacities e = Some c" using assms(3) by auto
    moreover have "map_of ?flow e = Some (Fin 0)" using e by (simp add: zero_flow_loop_lookup)
    ultimately show "\<exists>c f r. map_of capacities e = Some c \<and> map_of ?flow e = Some f \<and> py_sub c f = Inr r"
      using py_sub_zero by blast
  qed
  then obtain rc where rc: "residual_loop edges capacities ?flow [] = Inr rc" by blast
  have build: "construct_residual_graph edges capacities ?flow = Inr (map fst rc, rc)"
    by (simp add: construct_residual_graph_def rc dict_keys_def)
  from residual_loop_keys[OF rc]
  have ks: "set (map fst rc) = set edges \<union> (\<lambda>(u, v). (v, u)) ` set edges" by simp
  have iso: "source \<notin> fst ` set (map fst rc)"
    unfolding ks using assms(1) by force
  have search: "search_method (map fst rc) rc source sink = Inr None"
    using assms(4) bfs_isolated_source[OF iso assms(2)] dfs_isolated_source[OF iso assms(2)]
      max_isolated_source[OF iso assms(2)] min_isolated_source[OF iso assms(2)]
    by blast
  have "\<And>u v. (u, v) \<in> set (map fst ?flow) \<Longrightarrow> u \<noteq> source \<and> v \<noteq> source"
    using assms(1) unfolding zero_flow_loop_keys by auto
  then have val: "calculate_flow_value ?flow source = Inr (Fin 0)"
    by (rule calculate_flow_value_isolated)
  show ?thesis
    by (simp add: ford_fulkerson_def engine_def initial_flow_def build search
          augment_while.simps val)
qed


text \<open>The amended claim C9 at the graph of the single edge \<open>(a, b)\<close>, source \<open>x\<close>, with DFS.\<close>

theorem absent_source_returns_zero_flow_witness:
  "''a'' \<noteq> ''x'' \<and> ''b'' \<noteq> ''x'' \<and> ''x'' \<noteq> ''y''
   \<and> dict_get [((''a'', ''b''), Fin 1)] (''a'', ''b'') = Inr (Fin 1)
   \<and> ford_fulkerson [(''a'', ''b'')] [((''a'', ''b''), Fin 1)] ''x'' ''y'' find_augmenting_path_dfs None
       = Some (Inr ([((''a'', ''b''), Fin 0)], Fin 0))"
proof -
  have 1: "\<forall>(u, v) \<in> set [(''a'', ''b'')]. u \<noteq> ''x'' \<and> v \<noteq> ''x''" by simp
  have 2: "''x'' \<noteq> ''y''" by simp
  have 3: "\<forall>e \<in> set [(''a'', ''b'')]. \<exists>c. dict_get [((''a'', ''b''), Fin 1)] e = Inr c"
    by (simp add: dict_get_def)
  have 4: "find_augmenting_path_dfs \<in> {find_augmenting_path_bfs, find_augmenting_path_dfs,
                           find_augmenting_path_max, find_augmenting_path_min}" by simp
  have 5: "zero_flow_loop [(''a'', ''b'')] [] = [((''a'', ''b''), Fin 0)]"
    by (simp add: dict_set_def)
  have 6: "''a'' \<noteq> ''x'' \<and> ''b'' \<noteq> ''x''" by simp
  have 7: "dict_get [((''a'', ''b''), Fin 1)] (''a'', ''b'') = Inr (Fin 1)" by (simp add: dict_get_def)
  from absent_source_returns_zero_flow[OF 1 2 3 4] 2 6 7 show ?thesis
    unfolding 5 by blast
qed

text \<open>
  Claim C9 as stated fails: with a source and a sink that are in no edge,
  \<^verbatim>\<open>ford_fulkerson\<close> returns a normal result, the zero flow and value 0, not an error.
\<close>

theorem absent_source_counterexample:
  "ford_fulkerson [(''a'', ''b'')] [((''a'', ''b''), Fin 1)] ''x'' ''y'' find_augmenting_path_bfs None
     = Some (Inr ([((''a'', ''b''), Fin 0)], Fin 0))"
  by code_simp

section \<open>The worked example of the minimum cost solver\<close>

text \<open>
  Claim C8. On the instance with supplies \<open>a = 5\<close>, \<open>b = 7\<close>, \<open>c = 0\<close>, \<open>i = -9\<close>,
  \<open>p = -3\<close> and the six edges of the example in minimum\_cost\_flow.py,
  \<^verbatim>\<open>minimum_cost_flow\<close> returns feasible true, flow value 12 and flow cost 60.
\<close>

theorem minimum_cost_flow_example:
  "minimum_cost_flow [''a'', ''b'', ''c'', ''i'', ''p'']
     [(''a'', ''c''), (''a'', ''i''), (''b'', ''c''), (''b'', ''p''), (''c'', ''i''), (''c'', ''p'')]
     [((''a'', ''c''), Fin 4), ((''a'', ''i''), Fin 5), ((''b'', ''c''), Fin 8),
      ((''b'', ''p''), Fin 4), ((''c'', ''i''), Fin 9), ((''c'', ''p''), Fin 3)]
     [((''a'', ''c''), Fin 1), ((''a'', ''i''), Fin 3), ((''b'', ''c''), Fin 4),
      ((''b'', ''p''), Fin 3), ((''c'', ''i''), Fin 5), ((''c'', ''p''), Fin 0)]
     [(''a'', Fin 5), (''b'', Fin 7), (''c'', Fin 0), (''i'', Fin (- 9)), (''p'', Fin (- 3))]
   = Some (Inr (True,
        [((''a'', ''c''), Fin 0), ((''a'', ''i''), Fin 5), ((''b'', ''c''), Fin 4),
         ((''b'', ''p''), Fin 3), ((''c'', ''i''), Fin 4), ((''c'', ''p''), Fin 0)],
        Fin 12, Fin 60))"
  by code_simp

section \<open>The augmentation loop\<close>

text \<open>
  An induction rule for the runs of the loop that end in a flow: the loop stops on a
  missing or empty path, and otherwise takes one augmentation step.
\<close>

lemma augment_while_stop:
  "path = None \<or> path = Some [] \<Longrightarrow>
     augment_while build edges source sink sm flow rc path = Some (Inr flow)"
  by (subst augment_while.simps) auto

lemma augment_while_step:
  assumes "p \<noteq> []" "calculate_path_capacity rc (get_path_edges p) = Inr b"
    "augment_flow edges flow (get_path_edges p) b = Inr flow'"
    "build flow' = Inr (re, rc')" "sm re rc' source sink = Inr path'"
  shows "augment_while build edges source sink sm flow rc (Some p)
           = augment_while build edges source sink sm flow' rc' path'"
  by (subst augment_while.simps) (simp add: assms)

lemma augment_while_Inr_induct [consumes 1, case_names stop step]:
  assumes run: "augment_while build edges source sink sm flow rc path = Some (Inr F)"
    and stop: "\<And>rc path. path = None \<or> path = Some [] \<Longrightarrow> P F rc path"
    and step: "\<And>flow rc p b flow' re rc' path'.
        p \<noteq> [] \<Longrightarrow> calculate_path_capacity rc (get_path_edges p) = Inr b \<Longrightarrow>
        augment_flow edges flow (get_path_edges p) b = Inr flow' \<Longrightarrow>
        build flow' = Inr (re, rc') \<Longrightarrow> sm re rc' source sink = Inr path' \<Longrightarrow>
        augment_while build edges source sink sm flow' rc' path' = Some (Inr F) \<Longrightarrow>
        P flow' rc' path' \<Longrightarrow> P flow rc (Some p)"
  shows "P flow rc path"
proof -
  define Q where "Q = (\<lambda>build' edges' source' sink' sm' flow rc path y.
      augment_while build' edges' source' sink' sm' flow rc path = Some y \<and>
      (build' = build \<longrightarrow> edges' = edges \<longrightarrow> source' = source \<longrightarrow> sink' = sink \<longrightarrow> sm' = sm
        \<longrightarrow> y = (Inr F :: error + (edge, num) dict) \<longrightarrow> P flow rc path))"
  have "Q build edges source sink sm flow rc path (Inr F)"
  proof (rule augment_while.raw_induct[where P = Q, OF _ run])
    fix aw build' edges' source' sink' sm' flow rc path y
    assume ih: "\<And>a1 a2 a3 a4 a5 a6 a7 a8 z. aw a1 a2 a3 a4 a5 a6 a7 a8 = Some z
                  \<Longrightarrow> Q a1 a2 a3 a4 a5 a6 a7 a8 z"
      and body: "(case path of None \<Rightarrow> Some (Inr flow)
      | Some path \<Rightarrow>
          if path = [] then Some (Inr flow)
          else case calculate_path_capacity rc (get_path_edges path) of
               Inl err \<Rightarrow> Some (Inl err)
               | Inr augmenting_path_capacity \<Rightarrow>
                   case augment_flow edges' flow (get_path_edges path)
                         augmenting_path_capacity of
                   Inl err \<Rightarrow> Some (Inl err)
                   | Inr flow' \<Rightarrow>
                       case build' flow' of Inl err \<Rightarrow> Some (Inl err)
                       | Inr (residual_edges, residual_capacities') \<Rightarrow>
                           case sm' residual_edges residual_capacities' source' sink' of
                           Inl err \<Rightarrow> Some (Inl err)
                           | Inr augmenting_path_nodes' \<Rightarrow>
                               aw build' edges' source' sink' sm' flow' residual_capacities'
                                augmenting_path_nodes') = Some y"
    have run': "augment_while build' edges' source' sink' sm' flow rc path = Some y"
    proof (cases "path = None \<or> path = Some []")
      case True
      then have "y = Inr flow" using body by auto
      then show ?thesis using augment_while_stop[OF True] by simp
    next
      case False
      then obtain p where p: "path = Some p" "p \<noteq> []" by auto
      show ?thesis
      proof (cases "calculate_path_capacity rc (get_path_edges p)")
        case (Inl e)
        from body p Inl have yv: "y = Inl e" by simp
        show ?thesis unfolding yv by (subst augment_while.simps) (simp add: p Inl)
      next
        case b: (Inr b)
        show ?thesis
        proof (cases "augment_flow edges' flow (get_path_edges p) b")
          case (Inl e)
          from body p b Inl have yv: "y = Inl e" by simp
          show ?thesis unfolding yv by (subst augment_while.simps) (simp add: p b Inl)
        next
          case f: (Inr flow')
          show ?thesis
          proof (cases "build' flow'")
            case (Inl e)
            from body p b f Inl have yv: "y = Inl e" by simp
            show ?thesis unfolding yv by (subst augment_while.simps) (simp add: p b f Inl)
          next
            case (Inr pr)
            obtain re rc' where pr: "pr = (re, rc')" by (cases pr)
            note r = Inr[unfolded pr]
            show ?thesis
            proof (cases "sm' re rc' source' sink'")
              case (Inl e)
              from body p b f r Inl have yv: "y = Inl e" by simp
              show ?thesis unfolding yv by (subst augment_while.simps) (simp add: p b f r Inl)
            next
              case s: (Inr path')
              from body p b f r s have
                rec: "aw build' edges' source' sink' sm' flow' rc' path' = Some y" by simp
              from ih[OF rec] have
                "augment_while build' edges' source' sink' sm' flow' rc' path' = Some y"
                unfolding Q_def by blast
              then show ?thesis
                using augment_while_step[where build=build' and sm=sm' and source=source' and sink=sink', OF p(2) b f r s] p(1) by simp
            qed
          qed
        qed
      qed
    qed
    show "Q build' edges' source' sink' sm' flow rc path y"
      unfolding Q_def
    proof (intro conjI impI)
      show "augment_while build' edges' source' sink' sm' flow rc path = Some y" by (rule run')
    next
      assume eqs: "build' = build" "edges' = edges" "source' = source" "sink' = sink" "sm' = sm"
        and y: "y = Inr F"
      show "P flow rc path"
      proof (cases "path = None \<or> path = Some []")
        case True
        then have "y = Inr flow" using body by auto
        then have "flow = F" using y by simp
        then show ?thesis using stop[OF True] by simp
      next
        case False
        then obtain p where p: "path = Some p" "p \<noteq> []" by auto
        from body p y obtain b where
          b: "calculate_path_capacity rc (get_path_edges p) = Inr b"
          by (auto split: sum.splits)
        from body p y b obtain flow' where
          f: "augment_flow edges' flow (get_path_edges p) b = Inr flow'"
          by (auto split: sum.splits)
        from body p y b f obtain re rc' where
          r: "build' flow' = Inr (re, rc')"
          by (auto split: sum.splits)
        from body p y b f r obtain path' where
          s: "sm' re rc' source' sink' = Inr path'"
          by (auto split: sum.splits)
        from body p y b f r s have
          rec: "aw build' edges' source' sink' sm' flow' rc' path' = Some y"
          by simp
        from ih[OF rec] eqs y have ihP: "P flow' rc' path'"
          and ihR: "augment_while build edges source sink sm flow' rc' path' = Some (Inr F)"
          unfolding Q_def by blast+
        show ?thesis
          unfolding p(1)
          by (rule step[OF p(2) b f[unfolded eqs] r[unfolded eqs] s[unfolded eqs] ihR ihP])
      qed
    qed
  qed
  then show ?thesis unfolding Q_def by blast
qed

lemma engineE:
  assumes "engine build edges source sink sm flow0 = Some (Inr (F, v))"
  obtains re rc path where "build (initial_flow edges flow0) = Inr (re, rc)"
    "sm re rc source sink = Inr path"
    "augment_while build edges source sink sm (initial_flow edges flow0) rc path = Some (Inr F)"
    "calculate_flow_value F source = Inr v"
proof -
  obtain re rc where b: "build (initial_flow edges flow0) = Inr (re, rc)"
    using assms unfolding engine_def Let_def
    by (cases "build (initial_flow edges flow0)") auto
  obtain path where s: "sm re rc source sink = Inr path"
    using assms b unfolding engine_def Let_def
    by (cases "sm re rc source sink") auto
  have w: "augment_while build edges source sink sm (initial_flow edges flow0) rc path = Some (Inr F)"
    and c: "calculate_flow_value F source = Inr v"
    using assms b s unfolding engine_def Let_def
    by (auto split: option.splits sum.splits)
  show ?thesis using that b s w c by blast
qed

lemma engineI:
  assumes "build (initial_flow edges flow0) = Inr (re, rc)"
    "sm re rc source sink = Inr path"
    "augment_while build edges source sink sm (initial_flow edges flow0) rc path = Some (Inr F)"
    "calculate_flow_value F source = Inr v"
  shows "engine build edges source sink sm flow0 = Some (Inr (F, v))"
  unfolding engine_def Let_def by (simp add: assms)

lemma dict_set_same_keys:
  "map_of d k = Some x \<Longrightarrow> map fst (dict_set d k y) = map fst d"
proof -
  assume "map_of d k = Some x"
  then have "k \<in> set (map fst d)" by (metis map_of_eq_None_iff option.distinct(1) set_map)
  then show ?thesis by (simp add: keys_dict_set)
qed

lemma dict_add_keys: "dict_add d k x = Inr d' \<Longrightarrow> map fst d' = map fst d"
  unfolding dict_add_def
  by (auto split: sum.splits option.splits simp add: dict_get_def dict_set_same_keys)

lemma dict_sub_keys: "dict_sub d k x = Inr d' \<Longrightarrow> map fst d' = map fst d"
  unfolding dict_sub_def
  by (auto split: sum.splits option.splits simp add: dict_get_def dict_set_same_keys)

lemma augment_flow_keys:
  "augment_flow es flow pe b = Inr flow' \<Longrightarrow> map fst flow' = map fst flow"
proof (induction es arbitrary: flow)
  case Nil
  then show ?case by simp
next
  case (Cons e es)
  obtain u v where e: "e = (u, v)" by (cases e)
  from Cons.prems obtain flow1 flow2 where
    1: "(if (u, v) \<in> set pe then dict_add flow (u, v) b else Inr flow) = Inr flow1"
    and 2: "(if (v, u) \<in> set pe then dict_sub flow1 (u, v) b else Inr flow1) = Inr flow2"
    and 3: "augment_flow es flow2 pe b = Inr flow'"
    unfolding e by (auto split: sum.splits)
  have "map fst flow1 = map fst flow" using 1 dict_add_keys by (auto split: if_splits)
  moreover have "map fst flow2 = map fst flow1" using 2 dict_sub_keys by (auto split: if_splits)
  moreover have "map fst flow' = map fst flow2" using Cons.IH[OF 3] .
  ultimately show ?case by simp
qed

lemma augment_while_keys:
  assumes "augment_while build edges source sink sm flow rc path = Some (Inr F)"
  shows "map fst F = map fst flow"
  using assms
proof (induction rule: augment_while_Inr_induct)
  case (stop rc path)
  show ?case by simp
next
  case (step flow rc p b flow' re rc' path')
  from augment_flow_keys[OF step(3)] step(7) show ?case by simp
qed

lemma augment_while_final:
  assumes "augment_while build edges source sink sm flow rc path = Some (Inr F)"
    and "build flow = Inr (re, rc)" and "sm re rc source sink = Inr path"
  shows "\<exists>reF rcF pF. build F = Inr (reF, rcF) \<and> sm reF rcF source sink = Inr pF
           \<and> (pF = None \<or> pF = Some [])"
proof -
  have "\<forall>re. build flow = Inr (re, rc) \<longrightarrow> sm re rc source sink = Inr path \<longrightarrow>
          (\<exists>reF rcF pF. build F = Inr (reF, rcF) \<and> sm reF rcF source sink = Inr pF
           \<and> (pF = None \<or> pF = Some []))"
    using assms(1)
  proof (induction rule: augment_while_Inr_induct)
    case (stop rc path)
    then show ?case by blast
  next
    case (step flow rc p b flow' re rc' path')
    then show ?case by blast
  qed
  then show ?thesis using assms(2,3) by blast
qed

lemma engine_idempotent:
  assumes "engine build edges source sink sm flow0 = Some (Inr (F, v))"
  shows "engine build edges source sink sm (Some F) = Some (Inr (F, v))
         \<and> (\<exists>re rc p. build F = Inr (re, rc) \<and> sm re rc source sink = Inr p
               \<and> (p = None \<or> p = Some []))"
proof -
  from assms obtain re rc path where
    b: "build (initial_flow edges flow0) = Inr (re, rc)"
    and s: "sm re rc source sink = Inr path"
    and w: "augment_while build edges source sink sm (initial_flow edges flow0) rc path = Some (Inr F)"
    and c: "calculate_flow_value F source = Inr v"
    by (rule engineE)
  from augment_while_final[OF w b s] obtain reF rcF pF where
    fin: "build F = Inr (reF, rcF)" "sm reF rcF source sink = Inr pF" "pF = None \<or> pF = Some []"
    by blast
  have keys: "map fst F = map fst (initial_flow edges flow0)" by (rule augment_while_keys[OF w])
  have init: "initial_flow edges (Some F) = F"
  proof (cases "F = []")
    case False
    then show ?thesis by (simp add: initial_flow_def)
  next
    case True
    then have e: "initial_flow edges flow0 = []" using keys by simp
    have "zero_flow_loop edges [] = []"
    proof (cases flow0)
      case None
      then show ?thesis using e by (simp add: initial_flow_def)
    next
      case (Some f)
      then show ?thesis using e by (cases "f = []") (simp_all add: initial_flow_def)
    qed
    then show ?thesis using True by (simp add: initial_flow_def)
  qed
  have stop: "augment_while build edges source sink sm F rcF pF = Some (Inr F)"
    by (rule augment_while_stop[OF fin(3)])
  have "engine build edges source sink sm (Some F) = Some (Inr (F, v))"
    by (rule engineI[where re=reF and rc=rcF and path=pF]) (simp_all add: init fin stop c)
  then show ?thesis using fin by blast
qed


text \<open>
  Claim C4. If \<^verbatim>\<open>ford_fulkerson\<close> has returned a flow and a value (from any starting
  flow, with any search method), then run again with that flow as the starting flow the
  first search on the residual graph of that flow finds no path, and the call returns
  the same flow and the same value.
\<close>

theorem ford_fulkerson_idempotent:
  assumes "ford_fulkerson edges capacities source sink search_method flow0 = Some (Inr (flow, flow_value))"
  shows "ford_fulkerson edges capacities source sink search_method (Some flow)
           = Some (Inr (flow, flow_value))
         \<and> (\<exists>residual_edges residual_capacities path.
               construct_residual_graph edges capacities flow
                 = Inr (residual_edges, residual_capacities)
               \<and> search_method residual_edges residual_capacities source sink = Inr path
               \<and> (path = None \<or> path = Some []))"
  using engine_idempotent[OF assms[unfolded ford_fulkerson_def]]
  unfolding ford_fulkerson_def .


text \<open>
  Claim C4 on the path \<open>s \<rightarrow> a \<rightarrow> t\<close> with capacities 3 and 2 and breadth-first search:
  the first run returns the flow of value 2, and so does the run started from that flow.
\<close>

theorem ford_fulkerson_idempotent_witness:
  "ford_fulkerson [(''s'', ''a''), (''a'', ''t'')] [((''s'', ''a''), Fin 3), ((''a'', ''t''), Fin 2)]
       ''s'' ''t'' find_augmenting_path_bfs None
     = Some (Inr ([((''s'', ''a''), Fin 2), ((''a'', ''t''), Fin 2)], Fin 2))
   \<and> ford_fulkerson [(''s'', ''a''), (''a'', ''t'')] [((''s'', ''a''), Fin 3), ((''a'', ''t''), Fin 2)]
       ''s'' ''t'' find_augmenting_path_bfs (Some [((''s'', ''a''), Fin 2), ((''a'', ''t''), Fin 2)])
     = Some (Inr ([((''s'', ''a''), Fin 2), ((''a'', ''t''), Fin 2)], Fin 2))"
proof -
  have run: "ford_fulkerson [(''s'', ''a''), (''a'', ''t'')]
       [((''s'', ''a''), Fin 3), ((''a'', ''t''), Fin 2)]
       ''s'' ''t'' find_augmenting_path_bfs None
     = Some (Inr ([((''s'', ''a''), Fin 2), ((''a'', ''t''), Fin 2)], Fin 2))"
    by code_simp
  from ford_fulkerson_idempotent[OF run] run show ?thesis by blast
qed

section \<open>The value reported by the minimum flow solver\<close>

lemma engine_value:
  assumes "engine build edges source sink sm flow0 = Some (Inr (F, v))"
  shows "calculate_flow_value F source = Inr v"
  using assms by (rule engineE)


text \<open>
  Claim C7. Whenever \<^verbatim>\<open>minimum_flow\<close> returns a flow and a value, the flow is the one
  returned by \<^verbatim>\<open>ford_fulkerson_min_flow\<close> run from the sink to the source, started at the
  feasible flow (the one supplied, or the one constructed when none or an empty one is
  supplied), and the value is the negation of the net outgoing flow of that flow at the
  sink.
\<close>

theorem minimum_flow_value_negated:
  assumes "minimum_flow nodes edges lower_bounds upper_bounds source sink search_method feasible_flow0
             = Some (Inr (min_flow, min_flow_value))"
  shows "\<exists>feasible v.
           (if feasible_flow0 = None \<or> feasible_flow0 = Some []
            then construct_feasible_flow nodes edges lower_bounds upper_bounds source sink
                   search_method = Some (Inr feasible)
            else feasible_flow0 = Some feasible)
         \<and> ford_fulkerson_min_flow edges lower_bounds upper_bounds sink source search_method
               (Some feasible) = Some (Inr (min_flow, v))
         \<and> calculate_flow_value min_flow sink = Inr v
         \<and> min_flow_value = py_neg v"
proof -
  define start where "start = (case feasible_flow0 of
              None \<Rightarrow> construct_feasible_flow nodes edges lower_bounds upper_bounds source sink
                        search_method
            | Some f \<Rightarrow>
                if f = [] then
                  construct_feasible_flow nodes edges lower_bounds upper_bounds source sink
                    search_method
                else Some (Inr f))"
  have m: "(case start of
        None \<Rightarrow> None
      | Some (Inl err) \<Rightarrow> Some (Inl err)
      | Some (Inr feasible) \<Rightarrow>
     (case ford_fulkerson_min_flow edges lower_bounds upper_bounds sink source search_method
             (Some feasible) of
        None \<Rightarrow> None
      | Some (Inl err) \<Rightarrow> Some (Inl err)
      | Some (Inr (min_flow, min_flow_value)) \<Rightarrow> Some (Inr (min_flow, py_neg min_flow_value))))
      = Some (Inr (min_flow, min_flow_value))"
    using assms unfolding minimum_flow_def start_def .
  then obtain feasible where s: "start = Some (Inr feasible)"
    by (cases start) (auto split: sum.splits)
  from m s obtain v where
    r: "ford_fulkerson_min_flow edges lower_bounds upper_bounds sink source search_method
               (Some feasible) = Some (Inr (min_flow, v))"
    and n: "min_flow_value = py_neg v"
    by (auto split: option.splits sum.splits)
  have c: "calculate_flow_value min_flow sink = Inr v"
    using r unfolding ford_fulkerson_min_flow_def by (rule engine_value)
  have i: "if feasible_flow0 = None \<or> feasible_flow0 = Some []
            then construct_feasible_flow nodes edges lower_bounds upper_bounds source sink
                   search_method = Some (Inr feasible)
            else feasible_flow0 = Some feasible"
    using s unfolding start_def by (auto split: option.splits if_splits)
  show ?thesis using i r c n by blast
qed


text \<open>
  Claim C7 on the path \<open>s \<rightarrow> a \<rightarrow> t\<close> with bounds 1 and 3 on both edges, started from
  the feasible flow 3: the minimum flow is 1 on both edges, the net outgoing flow at the
  sink is \<open>-1\<close> and the reported value is 1.
\<close>

theorem minimum_flow_value_negated_witness:
  "minimum_flow [''s'', ''a'', ''t''] [(''s'', ''a''), (''a'', ''t'')]
      [((''s'', ''a''), Fin 1), ((''a'', ''t''), Fin 1)]
      [((''s'', ''a''), Fin 3), ((''a'', ''t''), Fin 3)] ''s'' ''t'' find_augmenting_path_bfs
      (Some [((''s'', ''a''), Fin 3), ((''a'', ''t''), Fin 3)])
     = Some (Inr ([((''s'', ''a''), Fin 1), ((''a'', ''t''), Fin 1)], Fin 1))
   \<and> calculate_flow_value [((''s'', ''a''), Fin 1), ((''a'', ''t''), Fin 1)] ''t'' = Inr (Fin (- 1))
   \<and> (\<exists>v. ford_fulkerson_min_flow [(''s'', ''a''), (''a'', ''t'')]
          [((''s'', ''a''), Fin 1), ((''a'', ''t''), Fin 1)]
          [((''s'', ''a''), Fin 3), ((''a'', ''t''), Fin 3)] ''t'' ''s'' find_augmenting_path_bfs
          (Some [((''s'', ''a''), Fin 3), ((''a'', ''t''), Fin 3)])
        = Some (Inr ([((''s'', ''a''), Fin 1), ((''a'', ''t''), Fin 1)], v))
        \<and> Fin 1 = py_neg v)"
proof -
  have run: "minimum_flow [''s'', ''a'', ''t''] [(''s'', ''a''), (''a'', ''t'')]
      [((''s'', ''a''), Fin 1), ((''a'', ''t''), Fin 1)]
      [((''s'', ''a''), Fin 3), ((''a'', ''t''), Fin 3)] ''s'' ''t'' find_augmenting_path_bfs
      (Some [((''s'', ''a''), Fin 3), ((''a'', ''t''), Fin 3)])
     = Some (Inr ([((''s'', ''a''), Fin 1), ((''a'', ''t''), Fin 1)], Fin 1))"
    by code_simp
  have val: "calculate_flow_value [((''s'', ''a''), Fin 1), ((''a'', ''t''), Fin 1)] ''t''
      = Inr (Fin (- 1))"
    by code_simp
  from minimum_flow_value_negated[OF run] obtain feasible v where
    h: "(if Some [((''s'', ''a''), Fin 3), ((''a'', ''t''), Fin 3)] = None
           \<or> Some [((''s'', ''a''), Fin 3), ((''a'', ''t''), Fin 3)] = Some []
        then construct_feasible_flow [''s'', ''a'', ''t''] [(''s'', ''a''), (''a'', ''t'')]
               [((''s'', ''a''), Fin 1), ((''a'', ''t''), Fin 1)]
               [((''s'', ''a''), Fin 3), ((''a'', ''t''), Fin 3)] ''s'' ''t''
               find_augmenting_path_bfs = Some (Inr feasible)
        else Some [((''s'', ''a''), Fin 3), ((''a'', ''t''), Fin 3)] = Some feasible)"
       "ford_fulkerson_min_flow [(''s'', ''a''), (''a'', ''t'')]
          [((''s'', ''a''), Fin 1), ((''a'', ''t''), Fin 1)]
          [((''s'', ''a''), Fin 3), ((''a'', ''t''), Fin 3)] ''t'' ''s'' find_augmenting_path_bfs
          (Some feasible)
        = Some (Inr ([((''s'', ''a''), Fin 1), ((''a'', ''t''), Fin 1)], v))"
       "Fin 1 = py_neg v"
    by blast
  from h(1) have "feasible = [((''s'', ''a''), Fin 3), ((''a'', ''t''), Fin 3)]" by simp
  with h(2,3) run val show ?thesis by blast
qed

section \<open>The result of the feasible flow reducer\<close>

lemma check_supply_iff:
  "check_supply ns supply flow edges = Inr b \<Longrightarrow>
     b = (\<forall>n \<in> set ns. \<exists>x s. net_outgoing_flow flow edges n = Inr x \<and> dict_get supply n = Inr s
            \<and> py_eq x s)"
proof (induction ns)
  case Nil
  then show ?case by simp
next
  case (Cons n ns)
  from Cons.prems obtain x where x: "net_outgoing_flow flow edges n = Inr x"
    by (cases "net_outgoing_flow flow edges n") auto
  from Cons.prems x obtain s where s: "dict_get supply n = Inr s"
    by (cases "dict_get supply n") auto
  show ?case
  proof (cases "py_eq x s")
    case True
    then have "check_supply ns supply flow edges = Inr b" using Cons.prems x s by simp
    from Cons.IH[OF this] show ?thesis using x s True by simp
  next
    case False
    then have "b = False" using Cons.prems x s by simp
    then show ?thesis using x s False by auto
  qed
qed

lemma copy_flow_loop_lookup:
  "copy_flow_loop es flow_prime acc = Inr flow \<Longrightarrow>
     map_of flow k = (if k \<in> set es then map_of flow_prime k else map_of acc k)
     \<and> (k \<in> set es \<longrightarrow> map_of flow_prime k \<noteq> None)"
proof (induction es arbitrary: acc)
  case Nil
  then show ?case by simp
next
  case (Cons e es)
  from Cons.prems obtain x where x: "map_of flow_prime e = Some x"
    and rest: "copy_flow_loop es flow_prime (dict_set acc e x) = Inr flow"
    by (auto split: sum.splits)
  from Cons.IH[OF rest] show ?case using x by (cases "k = e") auto
qed

lemma copy_flow_loop_keys:
  "copy_flow_loop es flow_prime acc = Inr flow \<Longrightarrow>
     set (map fst flow) = set (map fst acc) \<union> set es"
proof (induction es arbitrary: acc)
  case Nil
  then show ?case by simp
next
  case (Cons e es)
  from Cons.prems obtain x where
    rest: "copy_flow_loop es flow_prime (dict_set acc e x) = Inr flow"
    by (auto split: sum.splits)
  from Cons.IH[OF rest] show ?case by (simp add: set_keys_dict_set del: set_map)
qed

lemma prime_loop_edges:
  "prime_loop ns supply ep cp = Inr (ep', cp') \<Longrightarrow>
     \<exists>synthetic. ep' = ep @ synthetic
       \<and> (\<forall>e \<in> set synthetic. (fst e = ''s_prime'' \<and> snd e \<in> set ns)
                               \<or> (snd e = ''t_prime'' \<and> fst e \<in> set ns))"
proof (induction ns arbitrary: ep cp)
  case Nil
  then show ?case by simp
next
  case (Cons n ns)
  from Cons.prems obtain s where s: "dict_get supply n = Inr s"
    by (cases "dict_get supply n") auto
  consider (pos) "py_gt s (Fin 0)" | (neg) "\<not> py_gt s (Fin 0)" "py_lt s (Fin 0)"
    | (zero) "\<not> py_gt s (Fin 0)" "\<not> py_lt s (Fin 0)" by blast
  then show ?case
  proof cases
    case pos
    then have "prime_loop ns supply (ep @ [(''s_prime'', n)]) (dict_set cp (''s_prime'', n) s)
                = Inr (ep', cp')"
      using Cons.prems s by simp
    from Cons.IH[OF this] obtain syn where
      h: "ep' = (ep @ [(''s_prime'', n)]) @ syn"
         "\<forall>e \<in> set syn. (fst e = ''s_prime'' \<and> snd e \<in> set ns)
                               \<or> (snd e = ''t_prime'' \<and> fst e \<in> set ns)"
      by blast
    show ?thesis
      by (rule exI[where x = "(''s_prime'', n) # syn"]) (use h in auto)
  next
    case neg
    then have "prime_loop ns supply (ep @ [(n, ''t_prime'')]) (dict_set cp (n, ''t_prime'') (py_neg s))
                = Inr (ep', cp')"
      using Cons.prems s by simp
    from Cons.IH[OF this] obtain syn where
      h: "ep' = (ep @ [(n, ''t_prime'')]) @ syn"
         "\<forall>e \<in> set syn. (fst e = ''s_prime'' \<and> snd e \<in> set ns)
                               \<or> (snd e = ''t_prime'' \<and> fst e \<in> set ns)"
      by blast
    show ?thesis
      by (rule exI[where x = "(n, ''t_prime'') # syn"]) (use h in auto)
  next
    case zero
    then have "prime_loop ns supply ep cp = Inr (ep', cp')"
      using Cons.prems s by simp
    from Cons.IH[OF this] obtain syn where
      h: "ep' = ep @ syn"
         "\<forall>e \<in> set syn. (fst e = ''s_prime'' \<and> snd e \<in> set ns)
                               \<or> (snd e = ''t_prime'' \<and> fst e \<in> set ns)"
      by blast
    show ?thesis
      by (rule exI[where x = syn]) (use h in auto)
  qed
qed


text \<open>
  Claim C6. Whenever \<^verbatim>\<open>feasible_flow\<close>, called without an initial flow, returns a triple:
  the first loop has extended the edge list by synthetic edges (each leaves \<^verbatim>\<open>s_prime\<close> or
  enters \<^verbatim>\<open>t_prime\<close>); the flow value is the one \<^verbatim>\<open>ford_fulkerson\<close> returned on the
  extended graph from \<^verbatim>\<open>s_prime\<close> to \<^verbatim>\<open>t_prime\<close>; the returned flow has exactly the
  original edges as keys and agrees on them with the flow of the extended graph; and
  \<open>feasible\<close> is true exactly when at every node the net outgoing flow equals the supply.
  The flow and its value are the same whether \<open>feasible\<close> is true or false.
\<close>

theorem feasible_flow_result:
  assumes "feasible_flow nodes edges capacities supply search_method None
             = Some (Inr (feasible, flow, flow_value))"
  shows "\<exists>synthetic capacities_prime flow_prime.
           prime_loop nodes supply edges capacities = Inr (edges @ synthetic, capacities_prime)
         \<and> list_all (\<lambda>e. fst e = ''s_prime'' \<or> snd e = ''t_prime'') synthetic
         \<and> ford_fulkerson (edges @ synthetic) capacities_prime ''s_prime'' ''t_prime''
               search_method None = Some (Inr (flow_prime, flow_value))
         \<and> set (dict_keys flow) = set edges
         \<and> list_all (\<lambda>e. dict_get flow e = dict_get flow_prime e) edges
         \<and> feasible = list_all (\<lambda>n. \<exists>x s. net_outgoing_flow flow edges n = Inr x
                                     \<and> dict_get supply n = Inr s \<and> py_eq x s) nodes"
proof -
  from assms obtain ep cp where p: "prime_loop nodes supply edges capacities = Inr (ep, cp)"
    unfolding feasible_flow_def
    by (cases "prime_loop nodes supply edges capacities") auto
  from assms p obtain fp fv where
    f: "ford_fulkerson ep cp ''s_prime'' ''t_prime'' search_method None = Some (Inr (fp, fv))"
    unfolding feasible_flow_def
    by (auto split: option.splits sum.splits)
  from assms p f obtain fl where c: "copy_flow_loop edges fp [] = Inr fl"
    unfolding feasible_flow_def
    by (cases "copy_flow_loop edges fp []") auto
  from assms p f c obtain b where k: "check_supply nodes supply fl edges = Inr b"
    unfolding feasible_flow_def
    by (cases "check_supply nodes supply fl edges") auto
  from assms p f c k have eqs: "feasible = b" "flow = fl" "flow_value = fv"
    unfolding feasible_flow_def by simp_all
  from prime_loop_edges[OF p] obtain syn where
    syn: "ep = edges @ syn"
      "\<forall>e \<in> set syn. (fst e = ''s_prime'' \<and> snd e \<in> set nodes)
                               \<or> (snd e = ''t_prime'' \<and> fst e \<in> set nodes)"
    by blast
  have 1: "prime_loop nodes supply edges capacities = Inr (edges @ syn, cp)"
    using p syn(1) by simp
  have 2: "list_all (\<lambda>e. fst e = ''s_prime'' \<or> snd e = ''t_prime'') syn"
    unfolding list_all_iff using syn(2) by blast
  have 3: "ford_fulkerson (edges @ syn) cp ''s_prime'' ''t_prime'' search_method None
             = Some (Inr (fp, flow_value))"
    using f syn(1) eqs(3) by simp
  have 4: "set (dict_keys flow) = set edges"
    unfolding dict_keys_def eqs(2) using copy_flow_loop_keys[OF c] by simp
  have 5: "list_all (\<lambda>e. dict_get flow e = dict_get fp e) edges"
    unfolding list_all_iff eqs(2) dict_get_def using copy_flow_loop_lookup[OF c] by simp
  have 6: "feasible = list_all (\<lambda>n. \<exists>x s. net_outgoing_flow flow edges n = Inr x
                                     \<and> dict_get supply n = Inr s \<and> py_eq x s) nodes"
    unfolding list_all_iff eqs(1,2) by (rule check_supply_iff[OF k])
  show ?thesis using 1 2 3 4 5 6 by blast
qed

text \<open>
  Claim C6 on one edge \<open>(a, b)\<close> of capacity 1 with supply 2 at \<open>a\<close> and demand 2 at
  \<open>b\<close>: the result is not feasible and carries the maximum flow found, of value 1.
\<close>

theorem feasible_flow_result_witness:
  "feasible_flow [''a'', ''b''] [(''a'', ''b'')] [((''a'', ''b''), Fin 1)]
       [(''a'', Fin 2), (''b'', Fin (- 2))] find_augmenting_path_bfs None
     = Some (Inr (False, [((''a'', ''b''), Fin 1)], Fin 1))
   \<and> (\<exists>synthetic capacities_prime flow_prime.
         prime_loop [''a'', ''b''] [(''a'', Fin 2), (''b'', Fin (- 2))] [(''a'', ''b'')]
             [((''a'', ''b''), Fin 1)] = Inr ([(''a'', ''b'')] @ synthetic, capacities_prime)
         \<and> ford_fulkerson ([(''a'', ''b'')] @ synthetic) capacities_prime ''s_prime'' ''t_prime''
               find_augmenting_path_bfs None = Some (Inr (flow_prime, Fin 1))
         \<and> list_all (\<lambda>e. dict_get [((''a'', ''b''), Fin 1)] e = dict_get flow_prime e) [(''a'', ''b'')])
   \<and> net_outgoing_flow [((''a'', ''b''), Fin 1)] [(''a'', ''b'')] ''a'' = Inr (Fin 1)
   \<and> dict_get [(''a'', Fin 2), (''b'', Fin (- 2))] ''a'' = Inr (Fin 2)"
proof -
  have run: "feasible_flow [''a'', ''b''] [(''a'', ''b'')] [((''a'', ''b''), Fin 1)]
       [(''a'', Fin 2), (''b'', Fin (- 2))] find_augmenting_path_bfs None
     = Some (Inr (False, [((''a'', ''b''), Fin 1)], Fin 1))"
    by code_simp
  have n: "net_outgoing_flow [((''a'', ''b''), Fin 1)] [(''a'', ''b'')] ''a'' = Inr (Fin 1)"
    by code_simp
  have d: "dict_get [(''a'', Fin 2), (''b'', Fin (- 2))] ''a'' = Inr (Fin 2)"
    by code_simp
  from feasible_flow_result[OF run] run n d show ?thesis by blast
qed


section \<open>The feasible flow reducer with an initial flow\<close>

lemma py_sub_small: "\<not> float_overflow i \<Longrightarrow> \<exists>r. py_sub c (Fin i) = Inr r"
  by (cases c) simp_all

lemma residual_loop_missing:
  "e \<in> set es \<Longrightarrow> map_of flow e = None \<Longrightarrow>
     (\<exists>err. residual_loop es capacities flow acc = Inl err)
     \<and> ((\<forall>k x. map_of flow k = Some x \<longrightarrow> (\<exists>i. x = Fin i \<and> \<not> float_overflow i))
          \<longrightarrow> residual_loop es capacities flow acc = Inl KeyError)"
proof (induction es arbitrary: acc)
  case Nil
  then show ?case by simp
next
  case (Cons a es)
  obtain u v where a: "a = (u, v)" by (cases a)
  show ?case
  proof (cases "map_of capacities (u, v)")
    case None
    then show ?thesis unfolding a by (simp add: dict_get_def)
  next
    case c: (Some c)
    show ?thesis
    proof (cases "map_of flow (u, v)")
      case None
      then show ?thesis unfolding a using c by (simp add: dict_get_def)
    next
      case f: (Some f)
      then have "e \<noteq> a" using Cons.prems(2) a by auto
      then have mem: "e \<in> set es" using Cons.prems(1) by simp
      show ?thesis
      proof (cases "py_sub c f")
        case (Inl err)
        have "err = OverflowError \<and> (\<forall>i. f = Fin i \<longrightarrow> float_overflow i)"
          using Inl py_sub_small[of _ c] by (cases c; cases f) (auto split: if_splits)
        then show ?thesis unfolding a using c f Inl by (auto simp add: dict_get_def)
      next
        case (Inr r)
        from Cons.IH[OF mem Cons.prems(2), of "dict_set (dict_set acc (u, v) r) (v, u) f"]
        show ?thesis unfolding a using c f Inr by (simp add: dict_get_def)
      qed
    qed
  qed
qed

lemma prime_loop_error: "prime_loop ns supply ep cp = Inl err \<Longrightarrow> err = KeyError"
proof (induction ns arbitrary: ep cp)
  case Nil
  then show ?case by simp
next
  case (Cons n ns)
  show ?case
  proof (cases "dict_get supply n")
    case (Inl e)
    have "prime_loop (n # ns) supply ep cp = Inl e"
      by (simp only: prime_loop.simps Inl sum.case)
    moreover have "e = KeyError" using Inl by simp
    ultimately show ?thesis using Cons.prems by simp
  next
    case (Inr s)
    have "prime_loop (n # ns) supply ep cp =
          (if py_gt s (Fin 0) then
            prime_loop ns supply (ep @ [(''s_prime'', n)]) (dict_set cp (''s_prime'', n) s)
          else if py_lt s (Fin 0) then
            prime_loop ns supply (ep @ [(n, ''t_prime'')]) (dict_set cp (n, ''t_prime'') (py_neg s))
          else prime_loop ns supply ep cp)"
      by (simp only: prime_loop.simps Inr sum.case)
    then show ?thesis using Cons.prems Cons.IH by (auto split: if_splits)
  qed
qed

lemma py_lt_not_gt: "py_lt s (Fin 0) \<Longrightarrow> \<not> py_gt s (Fin 0)"
  unfolding py_gt_def by (cases s) auto

lemma prime_loop_contains:
  "prime_loop ns supply ep cp = Inr (ep', cp') \<Longrightarrow> n \<in> set ns \<Longrightarrow> dict_get supply n = Inr s
   \<Longrightarrow> (py_gt s (Fin 0) \<longrightarrow> (''s_prime'', n) \<in> set ep')
       \<and> (py_lt s (Fin 0) \<longrightarrow> (n, ''t_prime'') \<in> set ep')"
proof (induction ns arbitrary: ep cp)
  case Nil
  then show ?case by simp
next
  case (Cons m ns)
  from Cons.prems(1) obtain t where t: "dict_get supply m = Inr t"
    by (cases "dict_get supply m") auto
  define ep1 where "ep1 = (if py_gt t (Fin 0) then ep @ [(''s_prime'', m)]
                           else if py_lt t (Fin 0) then ep @ [(m, ''t_prime'')] else ep)"
  define cp1 where "cp1 = (if py_gt t (Fin 0) then dict_set cp (''s_prime'', m) t
                           else if py_lt t (Fin 0) then dict_set cp (m, ''t_prime'') (py_neg t) else cp)"
  have rest: "prime_loop ns supply ep1 cp1 = Inr (ep', cp')"
    using Cons.prems(1) t unfolding ep1_def cp1_def by (simp split: if_splits)
  from prime_loop_edges[OF rest] have sub: "set ep1 \<subseteq> set ep'" by auto
  show ?case
  proof (cases "n \<in> set ns")
    case True
    from Cons.IH[OF rest True Cons.prems(3)] show ?thesis .
  next
    case False
    then have nm: "m = n" using Cons.prems(2) by simp
    then have ts: "t = s" using t Cons.prems(3) by simp
    have "py_gt s (Fin 0) \<longrightarrow> (''s_prime'', n) \<in> set ep1"
      unfolding ep1_def nm ts by simp
    moreover have "py_lt s (Fin 0) \<longrightarrow> (n, ''t_prime'') \<in> set ep1"
      unfolding ep1_def nm ts using py_lt_not_gt[of s] by simp
    ultimately show ?thesis using sub by blast
  qed
qed


text \<open>
  Claim C10, amended. Let the supplied initial flow be non-empty and have no entry for
  the synthetic edge of some node of nonzero supply (the edge from \<^verbatim>\<open>s_prime\<close> for a
  positive supply, the edge to \<^verbatim>\<open>t_prime\<close> for a negative one). Then \<^verbatim>\<open>feasible_flow\<close>
  fails with an error and returns no triple; the error is KeyError when the values of
  the supplied flow are integers that convert to a float.
\<close>

theorem feasible_flow_initial_flow_fails:
  assumes "flow0 \<noteq> []" and "n \<in> set nodes" and "dict_get supply n = Inr s"
    and "(py_gt s (Fin 0) \<and> dict_get flow0 (''s_prime'', n) = Inl KeyError)
         \<or> (py_lt s (Fin 0) \<and> dict_get flow0 (n, ''t_prime'') = Inl KeyError)"
  shows "(\<exists>err. feasible_flow nodes edges capacities supply search_method (Some flow0)
                  = Some (Inl err))
       \<and> (list_all (\<lambda>(k, x). \<exists>i. x = Fin i \<and> \<not> float_overflow i) flow0
            \<longrightarrow> feasible_flow nodes edges capacities supply search_method (Some flow0)
                  = Some (Inl KeyError))"
proof (cases "prime_loop nodes supply edges capacities")
  case (Inl err)
  then have "err = KeyError" by (rule prime_loop_error)
  then show ?thesis using Inl unfolding feasible_flow_def by simp
next
  case (Inr pr)
  obtain ep cp where pr: "pr = (ep, cp)" by (cases pr)
  note p = Inr[unfolded pr]
  from prime_loop_contains[OF p assms(2,3)] assms(4) obtain e where
    e: "e \<in> set ep" "map_of flow0 e = None"
    by auto
  have init: "initial_flow ep (Some flow0) = flow0" using assms(1) by (simp add: initial_flow_def)
  from residual_loop_missing[OF e, of cp "[]"] obtain err where
    err: "residual_loop ep cp flow0 [] = Inl err"
    and key: "(\<forall>k x. map_of flow0 k = Some x \<longrightarrow> (\<exists>i. x = Fin i \<and> \<not> float_overflow i))
          \<longrightarrow> residual_loop ep cp flow0 [] = Inl KeyError"
    by blast
  have ff: "\<And>x. residual_loop ep cp flow0 [] = Inl x \<Longrightarrow>
      feasible_flow nodes edges capacities supply search_method (Some flow0) = Some (Inl x)"
    unfolding feasible_flow_def ford_fulkerson_def engine_def Let_def construct_residual_graph_def
    by (simp add: p init)
  have small: "list_all (\<lambda>(k, x). \<exists>i. x = Fin i \<and> \<not> float_overflow i) flow0
      \<Longrightarrow> (\<forall>k x. map_of flow0 k = Some x \<longrightarrow> (\<exists>i. x = Fin i \<and> \<not> float_overflow i))"
    unfolding list_all_iff by (auto dest: map_of_SomeD)
  show ?thesis using ff[OF err] ff key small by blast
qed


text \<open>
  The amended claim C10 on the edge \<open>(a, b)\<close> with supply 2 at \<open>a\<close> and the zero flow on
  \<open>(a, b)\<close> supplied.
\<close>

theorem feasible_flow_initial_flow_fails_witness:
  "[((''a'', ''b''), Fin 0)] \<noteq> [] \<and> ''a'' \<in> set [''a'', ''b'']
   \<and> dict_get [(''a'', Fin 2), (''b'', Fin (- 2))] ''a'' = Inr (Fin 2)
   \<and> py_gt (Fin 2) (Fin 0)
   \<and> dict_get [((''a'', ''b''), Fin 0)] (''s_prime'', ''a'') = Inl KeyError
   \<and> feasible_flow [''a'', ''b''] [(''a'', ''b'')] [((''a'', ''b''), Fin 3)]
       [(''a'', Fin 2), (''b'', Fin (- 2))] find_augmenting_path_bfs (Some [((''a'', ''b''), Fin 0)])
     = Some (Inl KeyError)"
proof -
  have 1: "[((''a'', ''b''), Fin 0)] \<noteq> []" by simp
  have 2: "''a'' \<in> set [''a'', ''b'']" by simp
  have 3: "dict_get [(''a'', Fin 2), (''b'', Fin (- 2))] ''a'' = Inr (Fin 2)" by code_simp
  have 4: "py_gt (Fin 2) (Fin 0)" by code_simp
  have 5: "dict_get [((''a'', ''b''), Fin 0)] (''s_prime'', ''a'') = Inl KeyError" by code_simp
  have 6: "list_all (\<lambda>(k, x). \<exists>i. x = Fin i \<and> \<not> float_overflow i) [((''a'', ''b''), Fin 0)]"
    by simp
  have 7: "(py_gt (Fin 2) (Fin 0) \<and> dict_get [((''a'', ''b''), Fin 0)] (''s_prime'', ''a'') = Inl KeyError)
         \<or> (py_lt (Fin 2) (Fin 0) \<and> dict_get [((''a'', ''b''), Fin 0)] (''a'', ''t_prime'') = Inl KeyError)"
    using 4 5 by blast
  from feasible_flow_initial_flow_fails[OF 1 2 3 7] 6
  have "feasible_flow [''a'', ''b''] [(''a'', ''b'')] [((''a'', ''b''), Fin 3)]
       [(''a'', Fin 2), (''b'', Fin (- 2))] find_augmenting_path_bfs (Some [((''a'', ''b''), Fin 0)])
     = Some (Inl KeyError)"
    by blast
  then show ?thesis using 1 2 3 4 5 by blast
qed


text \<open>
  Claim C10 as stated fails: a supplied flow that already has entries for the synthetic
  edges is accepted, and \<^verbatim>\<open>feasible_flow\<close> returns a triple.
\<close>

theorem feasible_flow_initial_flow_counterexample:
  "feasible_flow [''a'', ''b''] [(''a'', ''b'')] [((''a'', ''b''), Fin 3)]
       [(''a'', Fin 2), (''b'', Fin (- 2))] find_augmenting_path_bfs
       (Some [((''a'', ''b''), Fin 0), ((''s_prime'', ''a''), Fin 0), ((''b'', ''t_prime''), Fin 0)])
     = Some (Inr (True, [((''a'', ''b''), Fin 2)], Fin 2))"
  by code_simp

section \<open>Breadth-first search returns a shortest path\<close>

text \<open>
  An edge is positive when it is in the edge list and its residual capacity is greater
  than zero; a positive path from the source to the sink is a non-empty node list from
  the one to the other whose consecutive pairs are positive edges.
\<close>

definition positive_edge :: "edge list \<Rightarrow> (edge, num) dict \<Rightarrow> edge \<Rightarrow> bool" where
  "positive_edge edges residual_capacities e =
     (e \<in> set edges \<and>
      (case map_of residual_capacities e of None \<Rightarrow> False | Some c \<Rightarrow> py_gt c (Fin 0)))"

definition positive_path ::
  "edge list \<Rightarrow> (edge, num) dict \<Rightarrow> node \<Rightarrow> node \<Rightarrow> node list \<Rightarrow> bool" where
  "positive_path edges residual_capacities source sink p =
     (p \<noteq> [] \<and> hd p = source \<and> last p = sink \<and>
      list_all (positive_edge edges residual_capacities) (get_path_edges p))"

lemma get_path_edges_snoc:
  "p \<noteq> [] \<Longrightarrow> get_path_edges (p @ [v]) = get_path_edges p @ [(last p, v)]"
proof (induction p)
  case Nil
  then show ?case by simp
next
  case (Cons a p)
  show ?case
  proof (cases p)
    case Nil
    then show ?thesis by simp
  next
    case tail: (Cons b p')
    then have "get_path_edges (p @ [v]) = get_path_edges p @ [(last p, v)]"
      using Cons.IH by simp
    then show ?thesis using tail by simp
  qed
qed

lemma length_get_path_edges: "length (get_path_edges p) = length p - 1"
  by (induction p rule: get_path_edges.induct) simp_all

lemma successors_iff:
  "successors es rc cur seen = Inr ns \<Longrightarrow>
     v \<in> set ns \<longleftrightarrow> positive_edge es rc (cur, v) \<and> v \<notin> set seen"
proof (induction es arbitrary: ns)
  case Nil
  then show ?case by (simp add: positive_edge_def)
next
  case (Cons e es)
  obtain a b where e: "e = (a, b)" by (cases e)
  from Cons.prems e have "successors ((a, b) # es) rc cur seen = Inr ns" by simp
  from successors_Cons_Inr[OF this] show ?case
  proof (elim disjE conjE exE)
    assume h: "a \<noteq> cur" "successors es rc cur seen = Inr ns"
    have "(cur, v) \<noteq> e" using h(1) e by simp
    then have "positive_edge (e # es) rc (cur, v) = positive_edge es rc (cur, v)"
      by (simp add: positive_edge_def)
    then show ?thesis using Cons.IH[OF h(2)] by simp
  next
    fix c vs
    assume h: "a = cur" "dict_get rc (a, b) = Inr c" "successors es rc cur seen = Inr vs"
      "ns = (if py_gt c (Fin 0) \<and> b \<notin> set seen then b # vs else vs)"
    have ih: "v \<in> set vs \<longleftrightarrow> positive_edge es rc (cur, v) \<and> v \<notin> set seen"
      by (rule Cons.IH[OF h(3)])
    have c: "map_of rc (cur, b) = Some c" using h(1,2) by (simp add: dict_get_def split: option.splits)
    show ?thesis
    proof (cases "v = b")
      case True
      have "positive_edge (e # es) rc (cur, b) = py_gt c (Fin 0)"
        unfolding e h(1) by (simp add: positive_edge_def c)
      moreover have "positive_edge es rc (cur, b) \<longrightarrow> py_gt c (Fin 0)"
        by (simp add: positive_edge_def c)
      ultimately show ?thesis using ih h(4) True by auto
    next
      case False
      then have "(cur, v) \<noteq> e" using e by simp
      then have "positive_edge (e # es) rc (cur, v) = positive_edge es rc (cur, v)"
        by (simp add: positive_edge_def)
      then show ?thesis using ih h(4) False by auto
    qed
  qed
qed

text \<open>
  The invariant of the search loop: the source is discovered; every path in the queue
  is a walk of positive edges from the source to a discovered node, and no walk to that
  node is shorter; a discovered node is the end of a path in the queue or all its
  successors are discovered; the queue is ordered by length, with lengths at most one
  apart.
\<close>

definition walk_from :: "edge list \<Rightarrow> (edge, num) dict \<Rightarrow> node \<Rightarrow> node list \<Rightarrow> bool" where
  "walk_from edges rc s p =
     (p \<noteq> [] \<and> hd p = s \<and> list_all (positive_edge edges rc) (get_path_edges p))"

lemma positive_path_walk:
  "positive_path edges rc s t p \<longleftrightarrow> walk_from edges rc s p \<and> last p = t"
  unfolding positive_path_def walk_from_def by blast

lemma walk_single: "walk_from edges rc s [s]"
  unfolding walk_from_def by simp

lemma walk_snoc:
  assumes "walk_from edges rc s p" "positive_edge edges rc (last p, v)"
  shows "walk_from edges rc s (p @ [v])"
proof -
  have ne: "p \<noteq> []" using assms(1) unfolding walk_from_def by blast
  have "get_path_edges (p @ [v]) = get_path_edges p @ [(last p, v)]"
    by (rule get_path_edges_snoc[OF ne])
  then show ?thesis using assms ne unfolding walk_from_def by simp
qed

lemma walk_snocD:
  assumes "walk_from edges rc s (q @ [v])" "q \<noteq> []"
  shows "walk_from edges rc s q \<and> positive_edge edges rc (last q, v)"
proof -
  have "get_path_edges (q @ [v]) = get_path_edges q @ [(last q, v)]"
    by (rule get_path_edges_snoc[OF assms(2)])
  then show ?thesis using assms unfolding walk_from_def by simp
qed

definition bfs_inv ::
  "edge list \<Rightarrow> (edge, num) dict \<Rightarrow> node \<Rightarrow> node list \<Rightarrow> node list list \<Rightarrow> bool" where
  "bfs_inv edges rc s closed opn =
     (s \<in> set closed
      \<and> (\<forall>p \<in> set opn. walk_from edges rc s p \<and> last p \<in> set closed
            \<and> (\<forall>q. walk_from edges rc s q \<and> last q = last p \<longrightarrow> length p \<le> length q))
      \<and> (\<forall>u \<in> set closed. (\<exists>p \<in> set opn. last p = u)
            \<or> (\<forall>v. positive_edge edges rc (u, v) \<longrightarrow> v \<in> set closed))
      \<and> sorted (map length opn)
      \<and> (\<forall>p \<in> set opn. length p \<le> length (hd opn) + 1))"

lemma bfs_inv_initial: "bfs_inv edges rc s [s] [[s]]"
proof -
  have "\<forall>q. walk_from edges rc s q \<and> last q = last [s] \<longrightarrow> length [s] \<le> length q"
    unfolding walk_from_def by (auto simp add: Suc_le_eq)
  then show ?thesis unfolding bfs_inv_def using walk_single[of edges rc s] by simp
qed

lemma bfs_near_closed:
  assumes inv: "bfs_inv edges rc s closed (p # rest)"
  shows "walk_from edges rc s q \<Longrightarrow> length q \<le> length p \<Longrightarrow> last q \<in> set closed"
proof (induction q rule: rev_induct)
  case Nil
  then show ?case unfolding walk_from_def by simp
next
  case (snoc v q)
  show ?case
  proof (cases "q = []")
    case True
    then have "v = s" using snoc.prems(1) unfolding walk_from_def by simp
    then show ?thesis using inv unfolding bfs_inv_def by simp
  next
    case False
    from walk_snocD[OF snoc.prems(1) False] have
      wq: "walk_from edges rc s q" and pe: "positive_edge edges rc (last q, v)" by blast+
    have lq: "length q < length p" using snoc.prems(2) by simp
    then have "last q \<in> set closed" using snoc.IH[OF wq] by simp
    then have "(\<exists>p' \<in> set (p # rest). last p' = last q)
            \<or> (\<forall>w. positive_edge edges rc (last q, w) \<longrightarrow> w \<in> set closed)"
      using inv unfolding bfs_inv_def by blast
    then show ?thesis
    proof
      assume "\<exists>p' \<in> set (p # rest). last p' = last q"
      then obtain p' where p': "p' \<in> set (p # rest)" "last p' = last q" by blast
      have "length p' \<le> length q"
        using inv p' wq unfolding bfs_inv_def by metis
      moreover have "length p \<le> length p'"
        using inv p'(1) unfolding bfs_inv_def by auto
      ultimately have False using lq by simp
      then show ?thesis ..
    next
      assume "\<forall>w. positive_edge edges rc (last q, w) \<longrightarrow> w \<in> set closed"
      then show ?thesis using pe by simp
    qed
  qed
qed

lemma bfs_inv_step:
  assumes inv: "bfs_inv edges rc s closed (p # rest)"
    and succ: "successors edges rc (last p) closed = Inr ns"
  shows "bfs_inv edges rc s (closed @ ns) (rest @ map (\<lambda>v. p @ [v]) ns)"
proof -
  let ?children = "map (\<lambda>v. p @ [v]) ns"
  let ?k = "length p"
  have S: "s \<in> set closed" using inv unfolding bfs_inv_def by blast
  have Vp: "walk_from edges rc s p" using inv unfolding bfs_inv_def by simp
  have V: "\<And>p'. p' \<in> set rest \<Longrightarrow> walk_from edges rc s p' \<and> last p' \<in> set closed
            \<and> (\<forall>q. walk_from edges rc s q \<and> last q = last p' \<longrightarrow> length p' \<le> length q)"
    using inv unfolding bfs_inv_def by simp
  have E: "\<And>u. u \<in> set closed \<Longrightarrow> (\<exists>p' \<in> set (p # rest). last p' = u)
            \<or> (\<forall>v. positive_edge edges rc (u, v) \<longrightarrow> v \<in> set closed)"
    using inv unfolding bfs_inv_def by blast
  have srt: "sorted (map length (p # rest))" using inv unfolding bfs_inv_def by blast
  have bnd: "\<And>p'. p' \<in> set rest \<Longrightarrow> length p' \<le> ?k + 1"
    using inv unfolding bfs_inv_def by simp
  have low: "\<And>p'. p' \<in> set rest \<Longrightarrow> ?k \<le> length p'"
    using srt by auto
  have ns_iff: "\<And>v. v \<in> set ns \<longleftrightarrow> positive_edge edges rc (last p, v) \<and> v \<notin> set closed"
    by (rule successors_iff[OF succ])
  have child: "\<And>v. v \<in> set ns \<Longrightarrow> walk_from edges rc s (p @ [v]) \<and> last (p @ [v]) \<in> set (closed @ ns)
            \<and> (\<forall>q. walk_from edges rc s q \<and> last q = last (p @ [v]) \<longrightarrow> length (p @ [v]) \<le> length q)"
  proof -
    fix v assume v: "v \<in> set ns"
    then have pe: "positive_edge edges rc (last p, v)" and nc: "v \<notin> set closed"
      using ns_iff by blast+
    have w: "walk_from edges rc s (p @ [v])" by (rule walk_snoc[OF Vp pe])
    have m: "\<forall>q. walk_from edges rc s q \<and> last q = last (p @ [v]) \<longrightarrow> length (p @ [v]) \<le> length q"
    proof (intro allI impI)
      fix q assume q: "walk_from edges rc s q \<and> last q = last (p @ [v])"
      then have lq: "last q = v" by simp
      have "\<not> length q \<le> ?k"
      proof
        assume "length q \<le> ?k"
        from bfs_near_closed[OF inv _ this] q have "last q \<in> set closed" by blast
        then show False using lq nc by simp
      qed
      then show "length (p @ [v]) \<le> length q" by simp
    qed
    show "walk_from edges rc s (p @ [v]) \<and> last (p @ [v]) \<in> set (closed @ ns)
            \<and> (\<forall>q. walk_from edges rc s q \<and> last q = last (p @ [v]) \<longrightarrow> length (p @ [v]) \<le> length q)"
      using w v m by simp
  qed
  have 1: "s \<in> set (closed @ ns)" using S by simp
  have 2: "\<forall>p' \<in> set (rest @ ?children). walk_from edges rc s p' \<and> last p' \<in> set (closed @ ns)
            \<and> (\<forall>q. walk_from edges rc s q \<and> last q = last p' \<longrightarrow> length p' \<le> length q)"
  proof
    fix p' assume "p' \<in> set (rest @ ?children)"
    then consider "p' \<in> set rest" | v where "v \<in> set ns" "p' = p @ [v]" by auto
    then show "walk_from edges rc s p' \<and> last p' \<in> set (closed @ ns)
            \<and> (\<forall>q. walk_from edges rc s q \<and> last q = last p' \<longrightarrow> length p' \<le> length q)"
    proof cases
      case 1
      from V[OF 1] show ?thesis by simp
    next
      case 2
      from child[OF 2(1)] show ?thesis unfolding 2(2) .
    qed
  qed
  have 3: "\<forall>u \<in> set (closed @ ns). (\<exists>p' \<in> set (rest @ ?children). last p' = u)
            \<or> (\<forall>v. positive_edge edges rc (u, v) \<longrightarrow> v \<in> set (closed @ ns))"
  proof
    fix u assume "u \<in> set (closed @ ns)"
    then consider (new) "u \<in> set ns" | (old) "u \<in> set closed" by auto
    then show "(\<exists>p' \<in> set (rest @ ?children). last p' = u)
            \<or> (\<forall>v. positive_edge edges rc (u, v) \<longrightarrow> v \<in> set (closed @ ns))"
    proof cases
      case new
      then have "p @ [u] \<in> set (rest @ ?children)" by simp
      moreover have "last (p @ [u]) = u" by simp
      ultimately show ?thesis by blast
    next
      case old
      from E[OF old] show ?thesis
      proof
        assume "\<exists>p' \<in> set (p # rest). last p' = u"
        then obtain p' where p': "p' \<in> set (p # rest)" "last p' = u" by blast
        show ?thesis
        proof (cases "p' \<in> set rest")
          case True
          then show ?thesis using p'(2) by auto
        next
          case False
          then have "p' = p" using p'(1) by simp
          then have u: "u = last p" using p'(2) by simp
          have "\<forall>v. positive_edge edges rc (u, v) \<longrightarrow> v \<in> set (closed @ ns)"
            unfolding u using ns_iff by auto
          then show ?thesis ..
        qed
      next
        assume "\<forall>v. positive_edge edges rc (u, v) \<longrightarrow> v \<in> set closed"
        then show ?thesis by simp
      qed
    qed
  qed
  have len_child: "\<And>c. c \<in> set ?children \<Longrightarrow> length c = ?k + 1" by auto
  have 4: "sorted (map length (rest @ ?children))"
  proof -
    have a: "sorted (map length rest)" using srt by simp
    have b: "sorted (map length ?children)"
    proof -
      have "map length ?children = replicate (length ns) (?k + 1)"
        by (induction ns) simp_all
      then show ?thesis by (simp add: sorted_replicate)
    qed
    have c: "\<forall>x \<in> set (map length rest). \<forall>y \<in> set (map length ?children). x \<le> y"
      using bnd len_child by auto
    show ?thesis unfolding map_append sorted_append using a b c by blast
  qed
  have 5: "\<forall>p' \<in> set (rest @ ?children). length p' \<le> length (hd (rest @ ?children)) + 1"
  proof
    fix p' assume p': "p' \<in> set (rest @ ?children)"
    then have ne: "rest @ ?children \<noteq> []" by auto
    then have "hd (rest @ ?children) \<in> set (rest @ ?children)" by (rule hd_in_set)
    then have "?k \<le> length (hd (rest @ ?children))"
      using low len_child by fastforce
    moreover have "length p' \<le> ?k + 1" using p' bnd len_child by fastforce
    ultimately show "length p' \<le> length (hd (rest @ ?children)) + 1" by simp
  qed
  show ?thesis unfolding bfs_inv_def using 1 2 3 4 5 by blast
qed

lemma bfs_loop_shortest:
  "bfs_inv edges rc s closed opn \<Longrightarrow> bfs_loop edges rc sink closed opn = Inr (Some r) \<Longrightarrow>
     walk_from edges rc s r \<and> last r = sink
     \<and> (\<forall>q. walk_from edges rc s q \<and> last q = sink \<longrightarrow> length r \<le> length q)"
proof (induction edges rc sink closed opn rule: bfs_loop.induct)
  case (1 edges rc sink closed)
  then show ?case by simp
next
  case (2 edges rc sink closed p rest)
  have ne: "p \<noteq> []" using "2.prems"(2) by (auto split: if_splits)
  show ?case
  proof (cases "last p = sink")
    case True
    then have "r = p" using "2.prems"(2) ne by simp
    then show ?thesis using "2.prems"(1) True unfolding bfs_inv_def by simp
  next
    case False
    from "2.prems"(2) ne False obtain ns where
      ns: "successors edges rc (last p) closed = Inr ns"
      by (cases "successors edges rc (last p) closed") auto
    have rec: "bfs_loop edges rc sink (closed @ ns) (rest @ map (\<lambda>v. p @ [v]) ns) = Inr (Some r)"
      using "2.prems"(2) ne False ns by simp
    have inv': "bfs_inv edges rc s (closed @ ns) (rest @ map (\<lambda>v. p @ [v]) ns)"
      by (rule bfs_inv_step[OF "2.prems"(1) ns])
    from "2.IH"[OF ne False ns inv' rec] show ?thesis .
  qed
qed


text \<open>
  Claim C5. If \<^verbatim>\<open>find_augmenting_path_bfs\<close> returns a path, it is a positive path from the
  source to the sink, and no positive path from the source to the sink has fewer edges.
\<close>

theorem bfs_returns_shortest_path:
  assumes "find_augmenting_path_bfs edges residual_capacities source sink = Inr (Some p)"
  shows "positive_path edges residual_capacities source sink p
       \<and> (\<forall>q. positive_path edges residual_capacities source sink q
              \<longrightarrow> length (get_path_edges p) \<le> length (get_path_edges q))"
proof -
  from bfs_loop_shortest[OF bfs_inv_initial assms[unfolded find_augmenting_path_bfs_def]]
  have "walk_from edges residual_capacities source p \<and> last p = sink
     \<and> (\<forall>q. walk_from edges residual_capacities source q \<and> last q = sink \<longrightarrow> length p \<le> length q)" .
  then show ?thesis unfolding positive_path_walk length_get_path_edges
    by (auto intro: diff_le_mono)
qed

text \<open>
  Claim C5 on the residual edges \<open>(s, a)\<close>, \<open>(a, t)\<close>, \<open>(s, t)\<close>: the search returns
  \<open>[s, t]\<close>, of one edge, and the positive path \<open>[s, a, t]\<close> has two.
\<close>

theorem bfs_returns_shortest_path_witness:
  "find_augmenting_path_bfs [(''s'', ''a''), (''a'', ''t''), (''s'', ''t'')]
       [((''s'', ''a''), Fin 5), ((''a'', ''t''), Fin 5), ((''s'', ''t''), Fin 1)] ''s'' ''t''
     = Inr (Some [''s'', ''t''])
   \<and> positive_path [(''s'', ''a''), (''a'', ''t''), (''s'', ''t'')]
       [((''s'', ''a''), Fin 5), ((''a'', ''t''), Fin 5), ((''s'', ''t''), Fin 1)] ''s'' ''t''
       [''s'', ''a'', ''t'']
   \<and> length (get_path_edges [''s'', ''t'']) \<le> length (get_path_edges [''s'', ''a'', ''t''])"
proof -
  have run: "find_augmenting_path_bfs [(''s'', ''a''), (''a'', ''t''), (''s'', ''t'')]
       [((''s'', ''a''), Fin 5), ((''a'', ''t''), Fin 5), ((''s'', ''t''), Fin 1)] ''s'' ''t''
     = Inr (Some [''s'', ''t''])"
    by code_simp
  have other: "positive_path [(''s'', ''a''), (''a'', ''t''), (''s'', ''t'')]
       [((''s'', ''a''), Fin 5), ((''a'', ''t''), Fin 5), ((''s'', ''t''), Fin 1)] ''s'' ''t''
       [''s'', ''a'', ''t'']"
    by code_simp
  from bfs_returns_shortest_path[OF run] other run show ?thesis by blast
qed

end
